theory Spec2Isabelle
  imports Main "HOL-Library.Word"
begin

section \<open>The payload builder of miner/payload\_building.go\<close>

text \<open>
  The file holds one shared object, \<open>Payload\<close>, with the methods \<open>update\<close>,
  \<open>Resolve\<close>, \<open>ResolveEmpty\<close> and \<open>ResolveFull\<close>, and the function
  \<open>buildPayload\<close>, which builds the empty block, creates the payload and starts a
  goroutine that rebuilds the block on a timer.

  Every method takes \<open>payload.lock\<close> on entry and holds it until it returns; only
  \<open>cond.Wait\<close> inside \<open>ResolveFull\<close> gives the lock up. A method body, or each of the
  two halves of \<open>ResolveFull\<close> around \<open>cond.Wait\<close>, is therefore one atomic transition
  of the shared state, and the lock itself needs no field in the model.
\<close>

subsection \<open>Data\<close>

type_synonym Hash = "256 word"
type_synonym Address = "160 word"
type_synonym Duration = int

record BuildPayloadArgs =
  Parent :: Hash
  Timestamp :: "64 word"
  FeeRecipient :: Address
  Random :: Hash

text \<open>The run-time panics the code of this file can raise.\<close>

datatype panic = NilDereference | CloseOfClosedChannel

text \<open>
  \<open>sync.Cond\<close>: the goroutines parked in \<open>Wait\<close>, in arrival order, and those a
  \<open>Broadcast\<close> has made runnable and that have not yet taken the lock again. Go's
  \<open>Wait\<close> returns only after a \<open>Broadcast\<close> or \<open>Signal\<close>.
\<close>

type_synonym tid = nat

record Cond =
  parked :: "tid list"
  woken :: "tid list"

definition NewCond :: Cond where
  "NewCond = \<lparr>parked = [], woken = []\<rparr>"

definition Broadcast :: "Cond \<Rightarrow> Cond" where
  "Broadcast c = \<lparr>parked = [], woken = woken c @ parked c\<rparr>"

definition Wait :: "tid \<Rightarrow> Cond \<Rightarrow> Cond" where
  "Wait t c = c\<lparr>parked := parked c @ [t]\<rparr>"

definition Resume :: "tid \<Rightarrow> Cond \<Rightarrow> Cond" where
  "Resume t c = c\<lparr>woken := removeAll t (woken c)\<rparr>"

text \<open>
  The struct \<open>Payload\<close>. \<open>newPayload\<close> leaves \<open>full\<close> and \<open>fullFees\<close> nil, so both are
  options. The blocks and fees handed to \<open>newPayload\<close> and \<open>update\<close> are the results of
  a \<open>getSealingBlock\<close> call that returned no error, and are plain values. The channel
  \<open>stop\<close> carries no data: all the code sees of it is whether it has been closed.
\<close>

record 'b Payload =
  empty :: 'b
  full :: "'b option"
  fullFees :: "int option"
  stop :: bool
  cond :: Cond

definition newPayload :: "'b \<Rightarrow> 'b Payload" where
  "newPayload e = \<lparr>empty = e, full = None, fullFees = None, stop = False, cond = NewCond\<rparr>"

subsection \<open>Primitives the methods use\<close>

text \<open>\<open>big.Int.Cmp\<close>; its argument is a pointer, read without a nil check.\<close>

definition Cmp :: "int \<Rightarrow> int option \<Rightarrow> panic + int" where
  "Cmp x y = (case y of None \<Rightarrow> Inl NilDereference
              | Some y' \<Rightarrow> Inr (if x < y' then - 1 else if x = y' then 0 else 1))"

text \<open>\<open>close(ch)\<close> panics on a channel that is closed already.\<close>

definition close_chan :: "bool \<Rightarrow> panic + bool" where
  "close_chan closed = (if closed then Inl CloseOfClosedChannel else Inr True)"

text \<open>
  \<open>beacon.BlockToExecutableData\<close> lives in another package; it is a parameter
  \<open>conv\<close> of the model. It reads the fields of the block it is given, so a nil block
  is a nil dereference.
\<close>

definition BlockToExecutableData :: "('b \<Rightarrow> 'w) \<Rightarrow> 'b option \<Rightarrow> panic + 'w" where
  "BlockToExecutableData conv blk =
     (case blk of None \<Rightarrow> Inl NilDereference | Some b \<Rightarrow> Inr (conv b))"

subsection \<open>The methods of Payload\<close>

text \<open>The test \<open>payload.full == nil || fees.Cmp(payload.fullFees) > 0\<close> of \<open>update\<close>.\<close>

definition higher :: "'b Payload \<Rightarrow> int \<Rightarrow> panic + bool" where
  "higher payload fees =
     (if full payload = None then Inr True
      else (case Cmp fees (fullFees payload) of Inl x \<Rightarrow> Inl x | Inr r \<Rightarrow> Inr (0 < r)))"

definition update :: "'b Payload \<Rightarrow> 'b \<Rightarrow> int \<Rightarrow> panic + 'b Payload" where
  "update payload block fees =
     (if stop payload then Inr payload
      else (case higher payload fees of
              Inl x \<Rightarrow> Inl x
            | Inr h \<Rightarrow>
                Inr ((if h then payload\<lparr>full := Some block, fullFees := Some fees\<rparr>
                      else payload)
                     \<lparr>cond := Broadcast (cond payload)\<rparr>)))"

definition Resolve :: "('b \<Rightarrow> 'w) \<Rightarrow> 'b Payload \<Rightarrow> panic + 'b Payload \<times> 'w" where
  "Resolve conv payload =
     (case (if stop payload then Inr (stop payload) else close_chan (stop payload)) of
        Inl x \<Rightarrow> Inl x
      | Inr st \<Rightarrow>
          (case (if full payload \<noteq> None then BlockToExecutableData conv (full payload)
                 else BlockToExecutableData conv (Some (empty payload))) of
             Inl x \<Rightarrow> Inl x
           | Inr d \<Rightarrow> Inr (payload\<lparr>stop := st\<rparr>, d)))"

definition ResolveEmpty :: "('b \<Rightarrow> 'w) \<Rightarrow> 'b Payload \<Rightarrow> panic + 'b Payload \<times> 'w" where
  "ResolveEmpty conv payload =
     (case BlockToExecutableData conv (Some (empty payload)) of
        Inl x \<Rightarrow> Inl x
      | Inr d \<Rightarrow> Inr (payload, d))"

text \<open>
  \<open>ResolveFull\<close> up to its first return or to \<open>cond.Wait\<close>: it returns data, returns
  nil (\<open>NoData\<close>), or parks the calling goroutine \<open>t\<close>.
\<close>

datatype 'w answer = Data 'w | NoData | Parks

definition ResolveFull :: "('b \<Rightarrow> 'w) \<Rightarrow> tid \<Rightarrow> 'b Payload \<Rightarrow> panic + 'b Payload \<times> 'w answer" where
  "ResolveFull conv t payload =
     (if full payload = None then
        (if stop payload then Inr (payload, NoData)
         else Inr (payload\<lparr>cond := Wait t (cond payload)\<rparr>, Parks))
      else (case BlockToExecutableData conv (full payload) of
              Inl x \<Rightarrow> Inl x
            | Inr d \<Rightarrow> Inr (payload, Data d)))"

text \<open>
  \<open>ResolveFull\<close> from the return of \<open>cond.Wait\<close> on: the goroutine holds the lock again
  and converts \<open>payload.full\<close>, which is not tested a second time.
\<close>

definition ResolveFull_resume :: "('b \<Rightarrow> 'w) \<Rightarrow> tid \<Rightarrow> 'b Payload \<Rightarrow> panic + 'b Payload \<times> 'w answer" where
  "ResolveFull_resume conv t payload =
     (case BlockToExecutableData conv (full payload) of
        Inl x \<Rightarrow> Inl x
      | Inr d \<Rightarrow> Inr (payload\<lparr>cond := Resume t (cond payload)\<rparr>, Data d))"

text \<open>A run of \<open>update\<close> calls, stopping at the first panic.\<close>

fun updates :: "'b Payload \<Rightarrow> ('b \<times> int) list \<Rightarrow> panic + 'b Payload" where
  "updates payload [] = Inr payload"
| "updates payload ((block, fees) # us) =
     (case update payload block fees of Inl x \<Rightarrow> Inl x | Inr payload' \<Rightarrow> updates payload' us)"

text \<open>
  The updates of such a run that replace \<open>full\<close>: those that find \<open>stop\<close> open and pass
  the test of \<open>update\<close>.
\<close>

fun accepted :: "'b Payload \<Rightarrow> ('b \<times> int) list \<Rightarrow> ('b \<times> int) list" where
  "accepted payload [] = []"
| "accepted payload ((block, fees) # us) =
     (if \<not> stop payload \<and> higher payload fees = Inr True then [(block, fees)] else []) @
     (case update payload block fees of Inl x \<Rightarrow> [] | Inr payload' \<Rightarrow> accepted payload' us)"

subsection \<open>buildPayload and its goroutine\<close>

text \<open>
  \<open>worker.getSealingBlock\<close> is defined elsewhere in the package and asks the mining
  loop for a block; what it returns depends on the transaction pool at the time of the
  call. The model's function takes the five arguments of the code and, last, the number
  of calls made before this one; it returns the error, or the block and its fees.
\<close>

record ('b, 'e) worker =
  recommit :: Duration
  getSealingBlock :: "Hash \<Rightarrow> 64 word \<Rightarrow> Address \<Rightarrow> Hash \<Rightarrow> bool \<Rightarrow> nat \<Rightarrow> 'e + 'b \<times> int"

definition Second :: Duration where
  "Second = 1000000000"

text \<open>
  The goroutine's locals: the two timers, each with the duration it was last armed with
  (\<open>None\<close> once stopped), and whether the function has returned.
\<close>

record Routine =
  timer :: "Duration option"
  endTimer :: "Duration option"
  exited :: bool

text \<open>
  What \<open>buildPayload\<close> leaves behind when it succeeds: the payload it returns, the
  goroutine it started, and the number of \<open>getSealingBlock\<close> calls made so far.
\<close>

record 'b System =
  payload :: "'b Payload"
  routine :: Routine
  builds :: nat

definition buildPayload :: "('b, 'e) worker \<Rightarrow> BuildPayloadArgs \<Rightarrow> 'e + 'b System" where
  "buildPayload w args =
     (case getSealingBlock w (Parent args) (Timestamp args) (FeeRecipient args) (Random args)
             True 0 of
        Inl err \<Rightarrow> Inl err
      | Inr (empty_block, _) \<Rightarrow>
          Inr \<lparr>payload = newPayload empty_block,
               routine = \<lparr>timer = Some 0, endTimer = Some (Second * 12), exited = False\<rparr>,
               builds = 1\<rparr>)"

text \<open>
  The \<open>select\<close> of the goroutine's loop receives from one of three channels. The
  channel of an armed timer becomes ready when its time has passed; the model has no
  clock, so an armed timer may fire at any step. \<open>payload.stop\<close> is ready once closed.
\<close>

datatype select_case = TimerC | StopC | EndTimerC

fun ready :: "select_case \<Rightarrow> 'b System \<Rightarrow> bool" where
  "ready TimerC s = (\<not> exited (routine s) \<and> timer (routine s) \<noteq> None)"
| "ready StopC s = (\<not> exited (routine s) \<and> stop (payload s))"
| "ready EndTimerC s = (\<not> exited (routine s) \<and> endTimer (routine s) \<noteq> None)"

text \<open>
  One iteration of the loop for the case the \<open>select\<close> took. A \<open>return\<close> runs the
  deferred \<open>timer.Stop()\<close>.
\<close>

fun loop_body :: "('b, 'e) worker \<Rightarrow> BuildPayloadArgs \<Rightarrow> select_case \<Rightarrow> 'b System \<Rightarrow> panic + 'b System" where
  "loop_body w args TimerC s =
     (case getSealingBlock w (Parent args) (Timestamp args) (FeeRecipient args) (Random args)
             False (builds s) of
        Inl err \<Rightarrow>
          Inr (s\<lparr>routine := (routine s)\<lparr>timer := Some (recommit w)\<rparr>,
                 builds := Suc (builds s)\<rparr>)
      | Inr (block, fees) \<Rightarrow>
          (case update (payload s) block fees of
             Inl x \<Rightarrow> Inl x
           | Inr p \<Rightarrow>
               Inr (s\<lparr>payload := p,
                      routine := (routine s)\<lparr>timer := Some (recommit w)\<rparr>,
                      builds := Suc (builds s)\<rparr>)))"
| "loop_body w args StopC s =
     Inr (s\<lparr>routine := (routine s)\<lparr>timer := None, exited := True\<rparr>\<rparr>)"
| "loop_body w args EndTimerC s =
     Inr (s\<lparr>routine := (routine s)\<lparr>timer := None, exited := True\<rparr>\<rparr>)"

subsection \<open>Interleavings\<close>

text \<open>
  The atomic transitions of a running system: an iteration of the goroutine's loop, a
  call of a \<open>Resolve\<close> method by some goroutine, and the return of \<open>cond.Wait\<close> in a
  goroutine a broadcast has woken. A goroutine inside \<open>ResolveFull\<close> cannot call it
  again, and \<open>Wait\<close> returns only in a woken goroutine; elsewhere the event is disabled.
\<close>

datatype event =
    Select select_case
  | CallResolve
  | CallResolveEmpty
  | CallResolveFull tid
  | WaitReturns tid

datatype ('s, 'w) step_result = Disabled | Panic panic | Step 's "'w answer option"

fun step :: "('b \<Rightarrow> 'w) \<Rightarrow> ('b, 'e) worker \<Rightarrow> BuildPayloadArgs \<Rightarrow> event \<Rightarrow> 'b System
    \<Rightarrow> ('b System, 'w) step_result" where
  "step conv w args (Select c) s =
     (if ready c s then
        (case loop_body w args c s of Inl x \<Rightarrow> Panic x | Inr s' \<Rightarrow> Step s' None)
      else Disabled)"
| "step conv w args CallResolve s =
     (case Resolve conv (payload s) of
        Inl x \<Rightarrow> Panic x
      | Inr (p, d) \<Rightarrow> Step (s\<lparr>payload := p\<rparr>) (Some (Data d)))"
| "step conv w args CallResolveEmpty s =
     (case ResolveEmpty conv (payload s) of
        Inl x \<Rightarrow> Panic x
      | Inr (p, d) \<Rightarrow> Step (s\<lparr>payload := p\<rparr>) (Some (Data d)))"
| "step conv w args (CallResolveFull t) s =
     (if t \<in> set (parked (cond (payload s))) \<or> t \<in> set (woken (cond (payload s)))
      then Disabled
      else (case ResolveFull conv t (payload s) of
              Inl x \<Rightarrow> Panic x
            | Inr (p, r) \<Rightarrow> Step (s\<lparr>payload := p\<rparr>) (Some r)))"
| "step conv w args (WaitReturns t) s =
     (if t \<in> set (woken (cond (payload s))) then
        (case ResolveFull_resume conv t (payload s) of
           Inl x \<Rightarrow> Panic x
         | Inr (p, r) \<Rightarrow> Step (s\<lparr>payload := p\<rparr>) (Some r))
      else Disabled)"

text \<open>
  A sequence of events from a state: the state it ends in, or \<open>None\<close> when one of the
  events is disabled where it stands or panics.
\<close>

fun run :: "('b \<Rightarrow> 'w) \<Rightarrow> ('b, 'e) worker \<Rightarrow> BuildPayloadArgs \<Rightarrow> event list \<Rightarrow> 'b System
    \<Rightarrow> 'b System option" where
  "run conv w args [] s = Some s"
| "run conv w args (ev # evs) s =
     (case step conv w args ev s of
        Step s' _ \<Rightarrow> run conv w args evs s'
      | _ \<Rightarrow> None)"

text \<open>\<open>Resolve\<close> called \<open>n\<close> times in a row, with the results in order.\<close>

fun Resolves :: "('b \<Rightarrow> 'w) \<Rightarrow> nat \<Rightarrow> 'b Payload \<Rightarrow> panic + 'b Payload \<times> 'w list" where
  "Resolves conv 0 p = Inr (p, [])"
| "Resolves conv (Suc n) p =
     (case Resolve conv p of
        Inl x \<Rightarrow> Inl x
      | Inr (p', d) \<Rightarrow>
          (case Resolves conv n p' of
             Inl x \<Rightarrow> Inl x
           | Inr (p'', ds) \<Rightarrow> Inr (p'', d # ds)))"

subsection \<open>Time\<close>

text \<open>
  The steps above let an armed timer fire at any moment. Here the system runs against
  a clock: \<open>now\<close> is the time elapsed since the goroutine created its timers, and each
  timer has the instant from which its channel is ready (\<open>None\<close> once stopped).
  \<open>time.NewTimer(d)\<close> and \<open>timer.Reset(d)\<close> make the timer due \<open>d\<close> after the call;
  the deadline timer is created once and never reset.
\<close>

record 'b Timed =
  sys :: "'b System"
  now :: Duration
  timerDue :: "Duration option"
  endDue :: "Duration option"

text \<open>The timers as \<open>time.NewTimer\<close> leaves them at time 0, with the durations of \<open>buildPayload\<close>.\<close>

definition start :: "'b System \<Rightarrow> 'b Timed" where
  "start s = \<lparr>sys = s, now = 0, timerDue = timer (routine s), endDue = endTimer (routine s)\<rparr>"

text \<open>
  Which cases of the \<open>select\<close> are ready: a timer's from its due time on, that of
  \<open>payload.stop\<close> once the channel is closed. With several cases ready, Go's \<open>select\<close>
  takes any one of them.
\<close>

fun due :: "select_case \<Rightarrow> 'b Timed \<Rightarrow> bool" where
  "due TimerC t = (case timerDue t of None \<Rightarrow> False | Some d \<Rightarrow> d \<le> now t)"
| "due StopC t = stop (payload (sys t))"
| "due EndTimerC t = (case endDue t of None \<Rightarrow> False | Some d \<Rightarrow> d \<le> now t)"

text \<open>
  Time passes, or the system takes one of its steps without the clock moving. An
  iteration on the rebuild timer is a single step, taken at the instant of its
  \<open>update\<close> and of \<open>timer.Reset(w.recommit)\<close>: the time \<open>getSealingBlock\<close> took has
  passed before it. A \<open>return\<close> runs the deferred \<open>timer.Stop()\<close>.
\<close>

datatype tevent = Advance Duration | Do event

fun tstep :: "('b \<Rightarrow> 'w) \<Rightarrow> ('b, 'e) worker \<Rightarrow> BuildPayloadArgs \<Rightarrow> tevent \<Rightarrow> 'b Timed
    \<Rightarrow> ('b Timed, 'w) step_result" where
  "tstep conv w args (Advance d) t =
     (if 0 \<le> d then Step (t\<lparr>now := now t + d\<rparr>) None else Disabled)"
| "tstep conv w args (Do (Select c)) t =
     (if due c t then
        (case step conv w args (Select c) (sys t) of
           Step s' out \<Rightarrow>
             Step (t\<lparr>sys := s',
                     timerDue := (case c of TimerC \<Rightarrow> Some (now t + recommit w)
                                  | StopC \<Rightarrow> None
                                  | EndTimerC \<Rightarrow> None)\<rparr>) out
         | Panic x \<Rightarrow> Panic x
         | Disabled \<Rightarrow> Disabled)
      else Disabled)"
| "tstep conv w args (Do ev) t =
     (case step conv w args ev (sys t) of
        Step s' out \<Rightarrow> Step (t\<lparr>sys := s'\<rparr>) out
      | Panic x \<Rightarrow> Panic x
      | Disabled \<Rightarrow> Disabled)"

fun trun :: "('b \<Rightarrow> 'w) \<Rightarrow> ('b, 'e) worker \<Rightarrow> BuildPayloadArgs \<Rightarrow> tevent list \<Rightarrow> 'b Timed
    \<Rightarrow> 'b Timed option" where
  "trun conv w args [] t = Some t"
| "trun conv w args (ev # evs) t =
     (case tstep conv w args ev t of
        Step t' _ \<Rightarrow> trun conv w args evs t'
      | _ \<Rightarrow> None)"

text \<open>The steps of a timed run, without the passing of time.\<close>

fun untimed :: "tevent list \<Rightarrow> event list" where
  "untimed [] = []"
| "untimed (Advance d # evs) = untimed evs"
| "untimed (Do ev # evs) = ev # untimed evs"

text \<open>What the loop leaves behind when it returns.\<close>

definition returned :: "'b Timed \<Rightarrow> 'b Timed" where
  "returned t =
     t\<lparr>sys := (sys t)\<lparr>routine := (routine (sys t))\<lparr>timer := None, exited := True\<rparr>\<rparr>,
       timerDue := None\<rparr>"

subsection \<open>Invariants\<close>

text \<open>\<open>fullFees\<close> is set wherever \<open>full\<close> is: \<open>update\<close> then compares without a panic.\<close>

definition has_fees :: "'b Payload \<Rightarrow> bool" where
  "has_fees p = (full p = None \<or> fullFees p \<noteq> None)"

text \<open>
  What holds of every payload a running system can reach: once \<open>full\<close> is set nobody is
  parked, a goroutine has been woken only if \<open>full\<close> is set, and no goroutine is both
  parked and woken.
\<close>

definition sound :: "'b Payload \<Rightarrow> bool" where
  "sound p =
     ((full p = None \<or> (fullFees p \<noteq> None \<and> parked (cond p) = [])) \<and>
      (woken (cond p) = [] \<or> full p \<noteq> None) \<and>
      (\<forall>t \<in> set (parked (cond p)). t \<notin> set (woken (cond p))))"

text \<open>
  What holds of the goroutine's timers: the deadline timer stays armed with twelve
  seconds, and the rebuild timer is armed as long as the loop runs.
\<close>

definition armed :: "Routine \<Rightarrow> bool" where
  "armed r = (endTimer r = Some (Second * 12) \<and> (exited r \<or> timer r \<noteq> None))"

subsection \<open>A concrete system\<close>

text \<open>
  A worker whose empty block is block 0, whose second rebuild fails and whose other
  rebuilds return block \<open>k\<close> with fees \<open>10 * k\<close> at call \<open>k\<close>; a worker that cannot
  build at all; a converter; and the system \<open>buildPayload\<close> makes of the first worker.
\<close>

definition conv0 :: "nat \<Rightarrow> nat" where
  "conv0 b = b + 100"

definition args0 :: BuildPayloadArgs where
  "args0 = \<lparr>Parent = 1, Timestamp = 2, FeeRecipient = 3, Random = 4\<rparr>"

definition w0 :: "(nat, string) worker" where
  "w0 = \<lparr>recommit = 2 * Second,
          getSealingBlock = (\<lambda>parent ts rcpt rnd noTxs k.
            if noTxs then Inr (0, 0)
            else if k = 2 then Inl ''miner closed''
            else Inr (k, 10 * int k))\<rparr>"

definition w_closed :: "(nat, string) worker" where
  "w_closed = \<lparr>recommit = 2 * Second,
          getSealingBlock = (\<lambda>parent ts rcpt rnd noTxs k. Inl ''miner closed'')\<rparr>"

definition cond0 :: Cond where
  "cond0 = \<lparr>parked = [], woken = []\<rparr>"

definition payload0 :: "nat Payload" where
  "payload0 = \<lparr>empty = 0, full = None, fullFees = None, stop = False, cond = cond0\<rparr>"

definition routine0 :: Routine where
  "routine0 = \<lparr>timer = Some 0, endTimer = Some 12000000000, exited = False\<rparr>"

definition sys0 :: "nat System" where
  "sys0 = \<lparr>payload = payload0, routine = routine0, builds = 1\<rparr>"

text \<open>Goroutine 7 has called \<open>ResolveFull\<close> on the fresh payload and is parked.\<close>

definition sys_parked :: "nat System" where
  "sys_parked = sys0\<lparr>payload := payload0\<lparr>cond := \<lparr>parked = [7], woken = []\<rparr>\<rparr>\<rparr>"

text \<open>Then \<open>Resolve\<close> has been called.\<close>

definition sys_hung :: "nat System" where
  "sys_hung = sys0\<lparr>payload := payload0\<lparr>stop := True, cond := \<lparr>parked = [7], woken = []\<rparr>\<rparr>\<rparr>"

text \<open>Then the loop has run on its timer once more and has left through \<open>stop\<close>.\<close>

definition sys_hung_end :: "nat System" where
  "sys_hung_end =
     \<lparr>payload = payload0\<lparr>stop := True, cond := \<lparr>parked = [7], woken = []\<rparr>\<rparr>,
      routine = \<lparr>timer = None, endTimer = Some 12000000000, exited = True\<rparr>,
      builds = 2\<rparr>"

text \<open>The first rebuild has stored block 1 with fees 10 in the fresh payload.\<close>

definition payload_built :: "nat Payload" where
  "payload_built = payload0\<lparr>full := Some 1, fullFees := Some 10\<rparr>"

definition sys_built :: "nat System" where
  "sys_built =
     \<lparr>payload = payload_built,
      routine = routine0\<lparr>timer := Some 2000000000\<rparr>,
      builds = 2\<rparr>"

text \<open>The same rebuild with goroutine 7 parked before it: the broadcast has woken it.\<close>

definition sys_woken :: "nat System" where
  "sys_woken = sys_built\<lparr>payload := payload_built\<lparr>cond := \<lparr>parked = [], woken = [7]\<rparr>\<rparr>\<rparr>"

text \<open>
  Timed states of the same system: two seconds after the first rebuild, and after the
  failed rebuild that follows; \<open>Resolve\<close> and then a rebuild, both at time 0; twelve
  seconds gone with no step taken, a rebuild at that time, and the exit through the
  deadline at that time.
\<close>

definition t_retry :: "nat Timed" where
  "t_retry = \<lparr>sys = sys_built, now = 2000000000, timerDue = Some 2000000000,
              endDue = Some 12000000000\<rparr>"

definition t_cancelled :: "nat Timed" where
  "t_cancelled =
     \<lparr>sys = \<lparr>payload = payload0\<lparr>stop := True\<rparr>,
             routine = routine0\<lparr>timer := Some 2000000000\<rparr>, builds = 2\<rparr>,
      now = 0, timerDue = Some 2000000000, endDue = Some 12000000000\<rparr>"

definition t_overdue :: "nat Timed" where
  "t_overdue = \<lparr>sys = sys0, now = 12000000000, timerDue = Some 0, endDue = Some 12000000000\<rparr>"

definition t_overdue_built :: "nat Timed" where
  "t_overdue_built = \<lparr>sys = sys_built, now = 12000000000, timerDue = Some 14000000000,
                      endDue = Some 12000000000\<rparr>"

definition t_retried :: "nat Timed" where
  "t_retried = \<lparr>sys = sys_built\<lparr>builds := 3\<rparr>, now = 2000000000, timerDue = Some 4000000000,
                endDue = Some 12000000000\<rparr>"

definition t_deadline :: "nat Timed" where
  "t_deadline =
     \<lparr>sys = sys0\<lparr>routine := \<lparr>timer = None, endTimer = Some 12000000000, exited = True\<rparr>\<rparr>,
      now = 12000000000, timerDue = None, endDue = Some 12000000000\<rparr>"

section \<open>Properties\<close>

subsection \<open>The methods, one call at a time\<close>

lemma update_stopped: "stop p \<Longrightarrow> update p b f = Inr p"
  by (simp add: update_def)

lemma update_running:
  "\<not> stop p \<Longrightarrow> has_fees p \<Longrightarrow>
   update p b f =
     Inr ((if full p = None \<or> the (fullFees p) < f then p\<lparr>full := Some b, fullFees := Some f\<rparr> else p)
          \<lparr>cond := Broadcast (cond p)\<rparr>)"
  by (auto simp: update_def higher_def Cmp_def has_fees_def split: option.splits)

lemma update_stop: "update p b f = Inr p' \<Longrightarrow> stop p' = stop p"
  by (auto simp: update_def split: if_splits sum.splits)

lemma update_total: "has_fees p \<Longrightarrow> \<exists>p'. update p b f = Inr p'"
  by (cases "stop p") (simp_all add: update_stopped update_running)

lemma Resolve_eq:
  "Resolve conv p = Inr (p\<lparr>stop := True\<rparr>, conv (case full p of Some b \<Rightarrow> b | None \<Rightarrow> empty p))"
  by (auto simp: Resolve_def close_chan_def BlockToExecutableData_def split: option.splits)

lemma higher_eq:
  "has_fees p \<Longrightarrow> higher p f = Inr (full p = None \<or> the (fullFees p) < f)"
  by (auto simp: higher_def Cmp_def has_fees_def split: option.splits)

lemma Resolves_eq:
  "Resolves conv (Suc n) p =
     Inr (p\<lparr>stop := True\<rparr>,
          replicate (Suc n) (conv (case full p of None \<Rightarrow> empty p | Some b \<Rightarrow> b)))"
proof (induction n arbitrary: p)
  case 0
  show ?case by (simp add: Resolve_eq)
next
  case (Suc n)
  have "Resolves conv (Suc (Suc n)) p =
      (case Resolves conv (Suc n) (p\<lparr>stop := True\<rparr>) of
         Inl x \<Rightarrow> Inl x
       | Inr (p'', ds) \<Rightarrow>
           Inr (p'', conv (case full p of None \<Rightarrow> empty p | Some b \<Rightarrow> b) # ds))"
    by (subst Resolves.simps(2)) (simp add: Resolve_eq del: Resolves.simps)
  then show ?case by (simp only: Suc.IH) (simp split: option.splits)
qed

lemma updates_stopped: "stop p \<Longrightarrow> updates p us = Inr p"
  by (induction us) (auto simp: update_stopped)

lemma accepted_stopped: "stop p \<Longrightarrow> accepted p us = []"
  by (induction us) (auto simp: update_stopped)

lemma updates_from_best:
  "\<not> stop p \<Longrightarrow> full p = Some b0 \<Longrightarrow> fullFees p = Some g \<Longrightarrow>
   \<exists>p' b m. updates p us = Inr p' \<and> \<not> stop p' \<and> empty p' = empty p \<and>
     full p' = Some b \<and> fullFees p' = Some m \<and> g \<le> m \<and>
     last ((b0, g) # accepted p us) = (b, m) \<and>
     sorted_wrt (<) (g # map snd (accepted p us)) \<and>
     (\<forall>u \<in> set us. snd u \<le> m) \<and> set (accepted p us) \<subseteq> set us"
proof (induction us arbitrary: p b0 g)
  case Nil
  then show ?case by simp
next
  case (Cons u us)
  obtain b1 f1 where u: "u = (b1, f1)" by (cases u)
  from Cons.prems have hf: "has_fees p" by (simp add: has_fees_def)
  show ?case
  proof (cases "g < f1")
    case True
    let ?p1 = "p\<lparr>full := Some b1, fullFees := Some f1, cond := Broadcast (cond p)\<rparr>"
    from Cons.prems hf True have up: "update p b1 f1 = Inr ?p1"
      by (simp add: update_running)
    from Cons.prems hf True have hi: "higher p f1 = Inr True"
      by (simp add: higher_eq)
    have "\<not> stop ?p1" "full ?p1 = Some b1" "fullFees ?p1 = Some f1"
      using Cons.prems by simp_all
    from Cons.IH [OF this] obtain p' b m where
      r: "updates ?p1 us = Inr p'" "\<not> stop p'" "empty p' = empty ?p1"
         "full p' = Some b" "fullFees p' = Some m" "f1 \<le> m"
         "last ((b1, f1) # accepted ?p1 us) = (b, m)"
         "sorted_wrt (<) (f1 # map snd (accepted ?p1 us))"
         "\<forall>u \<in> set us. snd u \<le> m" "set (accepted ?p1 us) \<subseteq> set us"
      by blast
    have acc: "accepted p (u # us) = (b1, f1) # accepted ?p1 us"
      using Cons.prems(1) hi up u by simp
    have "sorted_wrt (<) (g # map snd (accepted p (u # us)))"
      using r(8) True acc by auto
    moreover have "\<forall>v \<in> set (u # us). snd v \<le> m" using r(6,9) u by simp
    moreover have "set (accepted p (u # us)) \<subseteq> set (u # us)" using acc r(10) u by auto
    moreover have "last ((b0, g) # accepted p (u # us)) = (b, m)" using acc r(7) by simp
    moreover have "updates p (u # us) = Inr p'" using up r(1) u by simp
    moreover have "g \<le> m" using True r(6) by simp
    ultimately show ?thesis using r(2,3,4,5) by simp
  next
    case False
    let ?p1 = "p\<lparr>cond := Broadcast (cond p)\<rparr>"
    from Cons.prems hf False have up: "update p b1 f1 = Inr ?p1"
      by (simp add: update_running)
    from Cons.prems hf False have hi: "higher p f1 = Inr False"
      by (simp add: higher_eq)
    have "\<not> stop ?p1" "full ?p1 = Some b0" "fullFees ?p1 = Some g"
      using Cons.prems by simp_all
    from Cons.IH [OF this] obtain p' b m where
      r: "updates ?p1 us = Inr p'" "\<not> stop p'" "empty p' = empty ?p1"
         "full p' = Some b" "fullFees p' = Some m" "g \<le> m"
         "last ((b0, g) # accepted ?p1 us) = (b, m)"
         "sorted_wrt (<) (g # map snd (accepted ?p1 us))"
         "\<forall>u \<in> set us. snd u \<le> m" "set (accepted ?p1 us) \<subseteq> set us"
      by blast
    have acc: "accepted p (u # us) = accepted ?p1 us"
      using hi up u by simp
    have "\<forall>v \<in> set (u # us). snd v \<le> m" using r(6,9) u False by simp
    moreover have "set (accepted p (u # us)) \<subseteq> set (u # us)" using acc r(10) by auto
    moreover have "updates p (u # us) = Inr p'" using up r(1) u by simp
    ultimately show ?thesis using r(2-8) acc by simp
  qed
qed


lemma updates_fresh:
  assumes "\<not> stop p" and "full p = None"
  shows "\<exists>p' b m. updates p (u # us) = Inr p' \<and> \<not> stop p' \<and> empty p' = empty p \<and>
     full p' = Some b \<and> fullFees p' = Some m \<and>
     accepted p (u # us) \<noteq> [] \<and> last (accepted p (u # us)) = (b, m) \<and>
     sorted_wrt (<) (map snd (accepted p (u # us))) \<and>
     (\<forall>v \<in> set (u # us). snd v \<le> m) \<and> set (accepted p (u # us)) \<subseteq> set (u # us)"
proof -
  obtain b1 f1 where u: "u = (b1, f1)" by (cases u)
  let ?p1 = "p\<lparr>full := Some b1, fullFees := Some f1, cond := Broadcast (cond p)\<rparr>"
  from assms have hf: "has_fees p" by (simp add: has_fees_def)
  from assms hf have up: "update p b1 f1 = Inr ?p1" by (simp add: update_running)
  from assms hf have hi: "higher p f1 = Inr True" by (simp add: higher_eq)
  have "\<not> stop ?p1" "full ?p1 = Some b1" "fullFees ?p1 = Some f1"
    using assms by simp_all
  from updates_from_best [OF this, of us] obtain p' b m where
    r: "updates ?p1 us = Inr p'" "\<not> stop p'" "empty p' = empty ?p1"
       "full p' = Some b" "fullFees p' = Some m" "f1 \<le> m"
       "last ((b1, f1) # accepted ?p1 us) = (b, m)"
       "sorted_wrt (<) (f1 # map snd (accepted ?p1 us))"
       "\<forall>u \<in> set us. snd u \<le> m" "set (accepted ?p1 us) \<subseteq> set us"
    by blast
  have acc: "accepted p (u # us) = (b1, f1) # accepted ?p1 us"
    using assms(1) hi up u by simp
  have "updates p (u # us) = Inr p'" using up r(1) u by simp
  moreover have "last (accepted p (u # us)) = (b, m)" using acc r(7) by simp
  moreover have "sorted_wrt (<) (map snd (accepted p (u # us)))" using acc r(8) by simp
  moreover have "\<forall>v \<in> set (u # us). snd v \<le> m" using r(6,9) u by simp
  moreover have "set (accepted p (u # us)) \<subseteq> set (u # us)" using acc r(10) u by auto
  ultimately show ?thesis using r(2,3,4,5) acc by simp
qed

lemma updates_accepted:
  assumes "has_fees p"
  shows "\<exists>p'. updates p us = Inr p' \<and> stop p' = stop p \<and> empty p' = empty p \<and>
     sorted_wrt (<) (map snd (accepted p us)) \<and>
     (case accepted p us of
        [] \<Rightarrow> full p' = full p \<and> fullFees p' = fullFees p
      | _ \<Rightarrow> full p' = Some (fst (last (accepted p us))) \<and>
             fullFees p' = Some (snd (last (accepted p us)))) \<and>
     (full p = None \<or> (\<exists>g. fullFees p = Some g \<and> sorted_wrt (<) (g # map snd (accepted p us))))"
proof (cases "stop p")
  case True
  then show ?thesis using assms
    by (auto simp: updates_stopped accepted_stopped has_fees_def)
next
  case False
  show ?thesis
  proof (cases "full p")
    case None
    show ?thesis
    proof (cases us)
      case Nil
      with None show ?thesis by simp
    next
      case (Cons u us')
      from updates_fresh [OF False None, of u us'] obtain p' b m where
        r: "updates p (u # us') = Inr p'" "\<not> stop p'" "empty p' = empty p"
           "full p' = Some b" "fullFees p' = Some m"
           "accepted p (u # us') \<noteq> []" "last (accepted p (u # us')) = (b, m)"
           "sorted_wrt (<) (map snd (accepted p (u # us')))"
        by blast
      then show ?thesis using False None Cons
        by (auto simp del: accepted.simps updates.simps split: list.splits)
    qed
  next
    case (Some b0)
    with assms obtain g where g: "fullFees p = Some g" by (auto simp: has_fees_def)
    from updates_from_best [OF False Some g, of us] obtain p' b m where
      r: "updates p us = Inr p'" "\<not> stop p'" "empty p' = empty p"
         "full p' = Some b" "fullFees p' = Some m"
         "last ((b0, g) # accepted p us) = (b, m)"
         "sorted_wrt (<) (g # map snd (accepted p us))"
      by blast
    show ?thesis
    proof (cases "accepted p us")
      case Nil
      with r Some g False show ?thesis by simp
    next
      case (Cons a as)
      with r(6) have "last (accepted p us) = (b, m)" by simp
      with r Some g False Cons show ?thesis
        by (auto simp del: accepted.simps updates.simps)
    qed
  qed
qed

subsection \<open>The invariant of the payload\<close>

lemma sound_new: "sound (newPayload e)"
  by (simp add: sound_def newPayload_def NewCond_def)

lemma sound_has_fees: "sound p \<Longrightarrow> has_fees p"
  by (auto simp: sound_def has_fees_def)

lemma update_sound: "sound p \<Longrightarrow> update p b f = Inr p' \<Longrightarrow> sound p'"
  by (cases "stop p") (auto simp: update_stopped update_running sound_has_fees sound_def Broadcast_def split: if_splits)

lemma ResolveFull_sound:
  "sound p \<Longrightarrow> t \<notin> set (parked (cond p)) \<Longrightarrow> t \<notin> set (woken (cond p)) \<Longrightarrow>
   ResolveFull conv t p = Inr (p', r) \<Longrightarrow> sound p'"
  by (auto simp: ResolveFull_def BlockToExecutableData_def sound_def Wait_def split: if_splits option.splits)

lemma ResolveFull_resume_sound:
  "sound p \<Longrightarrow> ResolveFull_resume conv t p = Inr (p', r) \<Longrightarrow> sound p'"
  by (auto simp: ResolveFull_resume_def BlockToExecutableData_def sound_def Resume_def split: if_splits option.splits)

lemma loop_body_sound:
  "sound (payload s) \<Longrightarrow> loop_body w args c s = Inr s' \<Longrightarrow> sound (payload s')"
proof (cases c)
  case TimerC
  assume a: "sound (payload s)" "loop_body w args c s = Inr s'"
  show ?thesis
  proof (cases "getSealingBlock w (Parent args) (Timestamp args) (FeeRecipient args) (Random args) False (builds s)")
    case (Inl err)
    with a TimerC show ?thesis by auto
  next
    case (Inr bf)
    obtain b f where bf: "bf = (b, f)" by (cases bf)
    from a TimerC Inr bf obtain p where p: "update (payload s) b f = Inr p" "payload s' = p"
      by (auto split: sum.splits)
    from update_sound [OF a(1) p(1)] p(2) show ?thesis by simp
  qed
qed auto


lemma step_sound:
  assumes "sound (payload s)" and "step conv w args ev s = Step s' out"
  shows "sound (payload s')"
proof (cases ev)
  case (Select c)
  with assms(2) have "loop_body w args c s = Inr s'"
    by (auto split: if_splits sum.splits)
  with assms(1) show ?thesis by (rule loop_body_sound)
next
  case CallResolve
  with assms(2) have "payload s' = (payload s)\<lparr>stop := True\<rparr>"
    by (auto simp: Resolve_eq)
  with assms(1) show ?thesis by (simp add: sound_def)
next
  case CallResolveEmpty
  with assms(2) have "payload s' = payload s"
    by (auto simp: ResolveEmpty_def BlockToExecutableData_def)
  with assms(1) show ?thesis by simp
next
  case (CallResolveFull t)
  with assms(2) obtain p r where
    "t \<notin> set (parked (cond (payload s)))" "t \<notin> set (woken (cond (payload s)))"
    "ResolveFull conv t (payload s) = Inr (p, r)" "payload s' = p"
    by (auto split: if_splits sum.splits)
  with assms(1) show ?thesis using ResolveFull_sound by simp
next
  case (WaitReturns t)
  with assms(2) obtain p r where
    "ResolveFull_resume conv t (payload s) = Inr (p, r)" "payload s' = p"
    by (auto split: if_splits sum.splits)
  with assms(1) show ?thesis using ResolveFull_resume_sound by simp
qed

lemma run_sound:
  "sound (payload s) \<Longrightarrow> run conv w args evs s = Some s' \<Longrightarrow> sound (payload s')"
proof (induction evs arbitrary: s)
  case Nil
  then show ?case by simp
next
  case (Cons ev evs)
  from Cons.prems(2) obtain s1 out where
    st: "step conv w args ev s = Step s1 out" and rest: "run conv w args evs s1 = Some s'"
    by (auto split: step_result.splits)
  from Cons.prems(1) st have "sound (payload s1)" by (rule step_sound)
  then show ?case using rest by (rule Cons.IH)
qed

lemma buildPayload_sound: "buildPayload w args = Inr s \<Longrightarrow> sound (payload s)"
  by (auto simp: buildPayload_def sound_new split: sum.splits)

lemma reachable_sound:
  "buildPayload w args = Inr s0 \<Longrightarrow> run conv w args evs s0 = Some s \<Longrightarrow> sound (payload s)"
  by (rule run_sound [OF buildPayload_sound])

subsection \<open>Steps and runs of the system\<close>

lemma step_CallResolve:
  "step conv w args CallResolve s =
     Step (s\<lparr>payload := (payload s)\<lparr>stop := True\<rparr>\<rparr>)
       (Some (Data (conv (case full (payload s) of None \<Rightarrow> empty (payload s) | Some b \<Rightarrow> b))))"
  by (simp add: Resolve_eq)

lemma loop_body_total:
  assumes "has_fees (payload s)"
  shows "\<exists>s'. loop_body w args c s = Inr s'"
proof (cases c)
  case TimerC
  show ?thesis
  proof (cases "getSealingBlock w (Parent args) (Timestamp args) (FeeRecipient args) (Random args) False (builds s)")
    case (Inl err)
    with TimerC show ?thesis by simp
  next
    case (Inr bf)
    obtain b f where bf: "bf = (b, f)" by (cases bf)
    from update_total [OF assms, of b f] obtain p where "update (payload s) b f = Inr p" by blast
    with TimerC Inr bf show ?thesis by simp
  qed
qed simp_all

lemma loop_body_exited:
  "loop_body w args c s = Inr s' \<Longrightarrow>
   exited (routine s') = (exited (routine s) \<or> c = StopC \<or> c = EndTimerC)"
  by (cases c) (auto split: sum.splits)

lemma loop_body_armed:
  "loop_body w args c s = Inr s' \<Longrightarrow> armed (routine s) \<Longrightarrow> armed (routine s')"
  by (cases c) (auto simp: armed_def split: sum.splits)

lemma step_routine:
  "step conv w args ev s = Step s' out \<Longrightarrow> (\<forall>c. ev \<noteq> Select c) \<Longrightarrow>
   routine s' = routine s \<and> builds s' = builds s"
  by (cases ev) (auto split: if_splits sum.splits)

lemma step_exited:
  assumes "step conv w args ev s = Step s' out"
  shows "exited (routine s') = (exited (routine s) \<or> ev = Select StopC \<or> ev = Select EndTimerC)"
proof (cases ev)
  case (Select c)
  with assms have "loop_body w args c s = Inr s'" by (auto split: if_splits sum.splits)
  from loop_body_exited [OF this] Select show ?thesis by simp
next
  case CallResolve
  with step_routine [OF assms] show ?thesis by simp
next
  case CallResolveEmpty
  with step_routine [OF assms] show ?thesis by simp
next
  case (CallResolveFull t)
  with step_routine [OF assms] show ?thesis by simp
next
  case (WaitReturns t)
  with step_routine [OF assms] show ?thesis by simp
qed

lemma step_armed:
  assumes "step conv w args ev s = Step s' out" and "armed (routine s)"
  shows "armed (routine s')"
proof (cases ev)
  case (Select c)
  with assms have "loop_body w args c s = Inr s'" by (auto split: if_splits sum.splits)
  from loop_body_armed [OF this assms(2)] show ?thesis .
next
  case CallResolve
  with step_routine [OF assms(1)] assms(2) show ?thesis by simp
next
  case CallResolveEmpty
  with step_routine [OF assms(1)] assms(2) show ?thesis by simp
next
  case (CallResolveFull t)
  with step_routine [OF assms(1)] assms(2) show ?thesis by simp
next
  case (WaitReturns t)
  with step_routine [OF assms(1)] assms(2) show ?thesis by simp
qed

lemma loop_body_payload:
  "loop_body w args c s = Inr s' \<Longrightarrow>
   payload s' = payload s \<or> (\<exists>b f. update (payload s) b f = Inr (payload s'))"
  by (cases c) (auto split: sum.splits)

lemma loop_body_stop:
  assumes "loop_body w args c s = Inr s'"
  shows "stop (payload s') = stop (payload s)"
proof -
  from loop_body_payload [OF assms] show ?thesis
  proof
    assume "payload s' = payload s"
    then show ?thesis by simp
  next
    assume "\<exists>b f. update (payload s) b f = Inr (payload s')"
    then obtain b f where "update (payload s) b f = Inr (payload s')" by blast
    then show ?thesis by (rule update_stop)
  qed
qed

lemma step_stop:
  assumes "step conv w args ev s = Step s' out"
  shows "stop (payload s') = (stop (payload s) \<or> ev = CallResolve)"
proof (cases ev)
  case (Select c)
  with assms have lb: "loop_body w args c s = Inr s'" by (auto split: if_splits sum.splits)
  from loop_body_stop [OF lb] Select show ?thesis by simp
next
  case CallResolve
  with assms show ?thesis by (auto simp: Resolve_eq)
next
  case CallResolveEmpty
  with assms show ?thesis by (auto simp: ResolveEmpty_def BlockToExecutableData_def)
next
  case (CallResolveFull t)
  with assms show ?thesis
    by (auto simp: ResolveFull_def BlockToExecutableData_def split: if_splits option.splits)
next
  case (WaitReturns t)
  with assms show ?thesis
    by (auto simp: ResolveFull_resume_def BlockToExecutableData_def split: if_splits option.splits)
qed

lemma run_exited:
  "run conv w args evs s = Some s' \<Longrightarrow>
   exited (routine s') = (exited (routine s) \<or> Select StopC \<in> set evs \<or> Select EndTimerC \<in> set evs)"
proof (induction evs arbitrary: s)
  case Nil
  then show ?case by simp
next
  case (Cons ev evs)
  from Cons.prems obtain s1 out where
    st: "step conv w args ev s = Step s1 out" and rest: "run conv w args evs s1 = Some s'"
    by (auto split: step_result.splits)
  from step_exited [OF st] Cons.IH [OF rest] show ?case by auto
qed

lemma run_stop:
  "run conv w args evs s = Some s' \<Longrightarrow>
   stop (payload s') = (stop (payload s) \<or> CallResolve \<in> set evs)"
proof (induction evs arbitrary: s)
  case Nil
  then show ?case by simp
next
  case (Cons ev evs)
  from Cons.prems obtain s1 out where
    st: "step conv w args ev s = Step s1 out" and rest: "run conv w args evs s1 = Some s'"
    by (auto split: step_result.splits)
  from step_stop [OF st] Cons.IH [OF rest] show ?case by auto
qed

lemma run_stop_mono:
  "run conv w args evs s = Some s' \<Longrightarrow> stop (payload s) \<Longrightarrow> stop (payload s')"
  by (simp add: run_stop)

lemma run_after_Resolve:
  "run conv w args evs s = Some s' \<Longrightarrow> CallResolve \<in> set evs \<Longrightarrow> stop (payload s')"
  by (simp add: run_stop)

lemma run_armed:
  "run conv w args evs s = Some s' \<Longrightarrow> armed (routine s) \<Longrightarrow> armed (routine s')"
proof (induction evs arbitrary: s)
  case Nil
  then show ?case by simp
next
  case (Cons ev evs)
  from Cons.prems(1) obtain s1 out where
    st: "step conv w args ev s = Step s1 out" and rest: "run conv w args evs s1 = Some s'"
    by (auto split: step_result.splits)
  from step_armed [OF st Cons.prems(2)] have "armed (routine s1)" .
  with rest show ?case by (rule Cons.IH)
qed

lemma buildPayload_fresh:
  "buildPayload w args = Inr s \<Longrightarrow>
   \<not> stop (payload s) \<and> \<not> exited (routine s) \<and> armed (routine s) \<and> full (payload s) = None"
  by (auto simp: buildPayload_def newPayload_def armed_def split: sum.splits)


lemma step_no_panic:
  assumes "sound (payload s)"
  shows "step conv w args ev s \<noteq> Panic x"
proof (cases ev)
  case (Select c)
  from loop_body_total [OF sound_has_fees [OF assms], of w args c]
  obtain s' where "loop_body w args c s = Inr s'" by blast
  with Select show ?thesis by simp
next
  case CallResolve
  then show ?thesis by (simp add: Resolve_eq)
next
  case CallResolveEmpty
  then show ?thesis by (simp add: ResolveEmpty_def BlockToExecutableData_def)
next
  case (CallResolveFull t)
  then show ?thesis
    by (auto simp: ResolveFull_def BlockToExecutableData_def split: option.splits)
next
  case (WaitReturns t)
  show ?thesis
  proof (cases "t \<in> set (woken (cond (payload s)))")
    case True
    then have "woken (cond (payload s)) \<noteq> []" by auto
    with assms obtain b where "full (payload s) = Some b" by (auto simp: sound_def)
    with WaitReturns True show ?thesis
      by (simp add: ResolveFull_resume_def BlockToExecutableData_def)
  next
    case False
    with WaitReturns show ?thesis by simp
  qed
qed

lemma step_stopped_frame:
  assumes "step conv w args ev s = Step s' out" and "stop (payload s)"
  shows "parked (cond (payload s')) = parked (cond (payload s)) \<and>
         full (payload s') = full (payload s)"
proof (cases ev)
  case (Select c)
  with assms(1) have lb: "loop_body w args c s = Inr s'" by (auto split: if_splits sum.splits)
  from loop_body_payload [OF lb] have "payload s' = payload s"
    using assms(2) by (auto simp: update_stopped)
  then show ?thesis by simp
next
  case CallResolve
  with assms show ?thesis by (auto simp: Resolve_eq)
next
  case CallResolveEmpty
  with assms show ?thesis by (auto simp: ResolveEmpty_def BlockToExecutableData_def)
next
  case (CallResolveFull t)
  with assms show ?thesis
    by (auto simp: ResolveFull_def BlockToExecutableData_def split: if_splits option.splits)
next
  case (WaitReturns t)
  with assms show ?thesis
    by (auto simp: ResolveFull_resume_def BlockToExecutableData_def Resume_def
          split: if_splits option.splits)
qed

lemma run_stopped_frame:
  "run conv w args evs s = Some s' \<Longrightarrow> stop (payload s) \<Longrightarrow>
   parked (cond (payload s')) = parked (cond (payload s)) \<and> full (payload s') = full (payload s)"
proof (induction evs arbitrary: s)
  case Nil
  then show ?case by simp
next
  case (Cons ev evs)
  from Cons.prems(1) obtain s1 out where
    st: "step conv w args ev s = Step s1 out" and rest: "run conv w args evs s1 = Some s'"
    by (auto split: step_result.splits)
  from step_stop [OF st] Cons.prems(2) have "stop (payload s1)" by simp
  from Cons.IH [OF rest this] step_stopped_frame [OF st Cons.prems(2)] show ?case by simp
qed

lemma run_append:
  "run conv w args (evs @ evs') s =
     (case run conv w args evs s of None \<Rightarrow> None | Some s1 \<Rightarrow> run conv w args evs' s1)"
  by (induction evs arbitrary: s) (auto split: step_result.splits)

lemma run_StopC:
  "run conv w args evs s = Some s' \<Longrightarrow> Select StopC \<in> set evs \<Longrightarrow> stop (payload s')"
proof (induction evs arbitrary: s)
  case Nil
  then show ?case by simp
next
  case (Cons ev evs)
  from Cons.prems(1) obtain s1 out where
    st: "step conv w args ev s = Step s1 out" and rest: "run conv w args evs s1 = Some s'"
    by (auto split: step_result.splits)
  show ?case
  proof (cases "ev = Select StopC")
    case True
    with st have "stop (payload s)" by (auto split: if_splits)
    with step_stop [OF st] have "stop (payload s1)" by simp
    with rest show ?thesis by (rule run_stop_mono)
  next
    case False
    with Cons.prems(2) have "Select StopC \<in> set evs" by simp
    with rest show ?thesis by (rule Cons.IH)
  qed
qed

subsection \<open>Timed runs\<close>

lemma tstep_Do:
  "tstep conv w args (Do ev) t = Step t' out \<Longrightarrow> step conv w args ev (sys t) = Step (sys t') out"
  by (cases ev) (auto split: if_splits step_result.splits)

lemma tstep_Advance:
  "tstep conv w args (Advance d) t = Step t' out \<Longrightarrow>
   sys t' = sys t \<and> now t \<le> now t' \<and> timerDue t' = timerDue t \<and> endDue t' = endDue t"
  by (auto split: if_splits)

lemma tstep_clock:
  "tstep conv w args ev t = Step t' out \<Longrightarrow> now t \<le> now t' \<and> endDue t' = endDue t"
proof (cases ev)
  case (Advance d)
  assume "tstep conv w args ev t = Step t' out"
  with Advance show ?thesis by (auto split: if_splits)
next
  case (Do e)
  assume "tstep conv w args ev t = Step t' out"
  with Do show ?thesis by (cases e) (auto split: if_splits step_result.splits)
qed

lemma trun_untimed:
  "trun conv w args evs t = Some t' \<Longrightarrow> run conv w args (untimed evs) (sys t) = Some (sys t')"
proof (induction evs arbitrary: t)
  case Nil
  then show ?case by simp
next
  case (Cons ev evs)
  from Cons.prems obtain t1 out where
    st: "tstep conv w args ev t = Step t1 out" and rest: "trun conv w args evs t1 = Some t'"
    by (auto split: step_result.splits)
  from Cons.IH [OF rest] have ih: "run conv w args (untimed evs) (sys t1) = Some (sys t')" .
  show ?case
  proof (cases ev)
    case (Advance d)
    with tstep_Advance st have "sys t1 = sys t" by blast
    with ih Advance show ?thesis by simp
  next
    case (Do e)
    with st have "step conv w args e (sys t) = Step (sys t1) out" by (simp add: tstep_Do)
    with ih Do show ?thesis by simp
  qed
qed

lemma untimed_mem: "(ev \<in> set (untimed evs)) = (Do ev \<in> set evs)"
  by (induction evs rule: untimed.induct) auto

lemma trun_clock:
  "trun conv w args evs t = Some t' \<Longrightarrow> now t \<le> now t' \<and> endDue t' = endDue t"
proof (induction evs arbitrary: t)
  case Nil
  then show ?case by simp
next
  case (Cons ev evs)
  from Cons.prems obtain t1 out where
    st: "tstep conv w args ev t = Step t1 out" and rest: "trun conv w args evs t1 = Some t'"
    by (auto split: step_result.splits)
  from tstep_clock [OF st] Cons.IH [OF rest] show ?case by simp
qed

lemma trun_deadline:
  "trun conv w args evs t = Some t' \<Longrightarrow> Do (Select EndTimerC) \<in> set evs \<Longrightarrow>
   \<exists>d. endDue t = Some d \<and> d \<le> now t'"
proof (induction evs arbitrary: t)
  case Nil
  then show ?case by simp
next
  case (Cons ev evs)
  from Cons.prems(1) obtain t1 out where
    st: "tstep conv w args ev t = Step t1 out" and rest: "trun conv w args evs t1 = Some t'"
    by (auto split: step_result.splits)
  show ?case
  proof (cases "ev = Do (Select EndTimerC)")
    case True
    with st obtain d where d: "endDue t = Some d" "d \<le> now t"
      by (auto split: if_splits option.splits)
    from tstep_clock [OF st] trun_clock [OF rest] have "now t \<le> now t'" by simp
    with d show ?thesis by simp
  next
    case False
    with Cons.prems(2) have "Do (Select EndTimerC) \<in> set evs" by simp
    from Cons.IH [OF rest this] tstep_clock [OF st] show ?thesis by simp
  qed
qed

lemma tstep_timerDue:
  assumes "tstep conv w args ev t = Step t' out"
    and "exited (routine (sys t)) \<or> timerDue t \<noteq> None"
  shows "exited (routine (sys t')) \<or> timerDue t' \<noteq> None"
proof (cases ev)
  case (Advance d)
  with assms show ?thesis by (auto split: if_splits)
next
  case (Do e)
  from Do assms(1) have st: "step conv w args e (sys t) = Step (sys t') out" by (simp add: tstep_Do)
  show ?thesis
  proof (cases e)
    case (Select c)
    from step_exited [OF st] Select
    have ex: "exited (routine (sys t')) = (exited (routine (sys t)) \<or> c = StopC \<or> c = EndTimerC)"
      by simp
    show ?thesis
    proof (cases c)
      case TimerC
      with Do Select assms(1) show ?thesis by (auto split: if_splits step_result.splits)
    qed (use ex in simp_all)
  next
    case CallResolve
    with Do assms step_routine [OF st] show ?thesis by (auto split: step_result.splits)
  next
    case CallResolveEmpty
    with Do assms step_routine [OF st] show ?thesis by (auto split: step_result.splits)
  next
    case (CallResolveFull u)
    with Do assms step_routine [OF st] show ?thesis by (auto split: step_result.splits)
  next
    case (WaitReturns u)
    with Do assms step_routine [OF st] show ?thesis by (auto split: step_result.splits)
  qed
qed

lemma trun_timerDue:
  "trun conv w args evs t = Some t' \<Longrightarrow> exited (routine (sys t)) \<or> timerDue t \<noteq> None \<Longrightarrow>
   exited (routine (sys t')) \<or> timerDue t' \<noteq> None"
proof (induction evs arbitrary: t)
  case Nil
  then show ?case by simp
next
  case (Cons ev evs)
  from Cons.prems(1) obtain t1 out where
    st: "tstep conv w args ev t = Step t1 out" and rest: "trun conv w args evs t1 = Some t'"
    by (auto split: step_result.splits)
  from tstep_timerDue [OF st Cons.prems(2)] have "exited (routine (sys t1)) \<or> timerDue t1 \<noteq> None" .
  with rest show ?case by (rule Cons.IH)
qed

lemma trun_append:
  "trun conv w args (evs @ evs') t =
     (case trun conv w args evs t of None \<Rightarrow> None | Some t1 \<Rightarrow> trun conv w args evs' t1)"
  by (induction evs arbitrary: t) (auto split: step_result.splits)

lemma timed_reachable:
  assumes "buildPayload w args = Inr s0" and "trun conv w args evs (start s0) = Some t"
  shows "endDue t = Some (Second * 12) \<and> armed (routine (sys t)) \<and>
         (exited (routine (sys t)) \<or> timerDue t \<noteq> None) \<and>
         run conv w args (untimed evs) s0 = Some (sys t)"
proof -
  from buildPayload_fresh [OF assms(1)] have f: "armed (routine s0)" by simp
  from trun_untimed [OF assms(2)] have r: "run conv w args (untimed evs) s0 = Some (sys t)"
    by (simp add: start_def)
  from trun_clock [OF assms(2)] f have "endDue t = Some (Second * 12)"
    by (simp add: start_def armed_def)
  moreover from run_armed [OF r f] have "armed (routine (sys t))" .
  moreover from trun_timerDue [OF assms(2)] f
  have "exited (routine (sys t)) \<or> timerDue t \<noteq> None"
    by (auto simp: start_def armed_def)
  ultimately show ?thesis using r by simp
qed

lemma exits_open:
  assumes "endDue t = Some (Second * 12)" and "armed (routine (sys t))"
    and "\<not> exited (routine (sys t))"
  shows "tstep conv w args (Do (Select EndTimerC)) t =
           (if Second * 12 \<le> now t then Step (returned t) None else Disabled) \<and>
         tstep conv w args (Do (Select StopC)) t =
           (if stop (payload (sys t)) then Step (returned t) None else Disabled)"
  using assms by (simp add: armed_def returned_def)

subsection \<open>The concrete system\<close>

lemmas model_defs =
  update_def higher_def Cmp_def Broadcast_def Wait_def Resume_def Resolve_def close_chan_def
  BlockToExecutableData_def ResolveEmpty_def ResolveFull_def ResolveFull_resume_def
  Second_def newPayload_def NewCond_def buildPayload_def

lemmas example_defs =
  conv0_def args0_def w0_def w_closed_def cond0_def payload0_def routine0_def sys0_def
  sys_parked_def sys_hung_def sys_hung_end_def payload_built_def sys_built_def sys_woken_def

lemma build_sys0: "buildPayload w0 args0 = Inr sys0"
  by (simp add: model_defs example_defs)

lemma step_parks: "step conv0 w0 args0 (CallResolveFull 7) sys0 = Step sys_parked (Some Parks)"
  by (simp add: model_defs example_defs)

lemma step_hangs: "step conv0 w0 args0 CallResolve sys_parked = Step sys_hung (Some (Data 100))"
  by (simp add: model_defs example_defs)

lemma run_hung: "run conv0 w0 args0 [CallResolveFull 7, CallResolve] sys0 = Some sys_hung"
  by (simp add: step_parks step_hangs del: step.simps)

lemma run_hung_end: "run conv0 w0 args0 [Select TimerC, Select StopC] sys_hung = Some sys_hung_end"
  by (simp add: model_defs example_defs)

lemma run_built: "run conv0 w0 args0 [Select TimerC] sys0 = Some sys_built"
  by (simp add: model_defs example_defs)

lemma run_parked: "run conv0 w0 args0 [CallResolveFull 7] sys0 = Some sys_parked"
  by (simp add: step_parks del: step.simps)

lemma run_woken: "run conv0 w0 args0 [CallResolveFull 7, Select TimerC] sys0 = Some sys_woken"
  by (simp add: model_defs example_defs)

lemma run_resolved: "run conv0 w0 args0 [CallResolve] sys0 = Some (sys0\<lparr>payload := payload0\<lparr>stop := True\<rparr>\<rparr>)"
  by (simp add: model_defs example_defs)

lemmas timed_defs = start_def returned_def t_retry_def t_cancelled_def t_overdue_def
  t_overdue_built_def t_retried_def t_deadline_def

subsection \<open>The claims\<close>

text \<open>
  C1, as amended. When \<open>Resolve\<close> closes \<open>stop\<close> while a caller is blocked in
  \<open>ResolveFull\<close>, the caller is not released: \<open>Resolve\<close> does not broadcast, and every
  later \<open>update\<close> returns before its broadcast. A goroutine still parked once \<open>stop\<close> is
  closed stays parked along every continuation, with \<open>full\<close> nil, and neither the return
  of its \<open>Wait\<close> nor a new call of its own is possible. A caller that arrives after the
  cancellation gets the nil result at once.
\<close>

theorem blocked_caller_stays_blocked:
  assumes "buildPayload w args = Inr s0"
    and "run conv w args evs s0 = Some s"
    and "t \<in> set (parked (cond (payload s)))"
    and "stop (payload s)"
    and "run conv w args evs' s = Some s'"
  shows "t \<in> set (parked (cond (payload s'))) \<and> full (payload s') = None \<and>
         stop (payload s') \<and>
         step conv w args (WaitReturns t) s' = Disabled \<and>
         step conv w args (CallResolveFull t) s' = Disabled \<and>
         (u \<in> set (parked (cond (payload s'))) \<or> u \<in> set (woken (cond (payload s'))) \<or>
          step conv w args (CallResolveFull u) s' = Step s' (Some NoData))"
proof -
  from assms(2,5) have "run conv w args (evs @ evs') s0 = Some s'" by (simp add: run_append)
  with assms(1) have snd1: "sound (payload s')" by (rule reachable_sound)
  from run_stopped_frame [OF assms(5,4)] have
    fr: "parked (cond (payload s')) = parked (cond (payload s))"
    by simp
  from assms(3) fr have p: "t \<in> set (parked (cond (payload s')))" by simp
  with snd1 have f: "full (payload s') = None" and nw: "t \<notin> set (woken (cond (payload s')))"
    by (auto simp: sound_def)
  from run_stop_mono [OF assms(5,4)] have st: "stop (payload s')" .
  from f st have "u \<in> set (parked (cond (payload s'))) \<or> u \<in> set (woken (cond (payload s'))) \<or>
          step conv w args (CallResolveFull u) s' = Step s' (Some NoData)"
    by (simp add: ResolveFull_def)
  with p f nw st show ?thesis by simp
qed

theorem blocked_caller_stays_blocked_witness:
  "buildPayload w0 args0 = Inr sys0 \<and>
   run conv0 w0 args0 [CallResolveFull 7, CallResolve] sys0 = Some sys_hung \<and>
   7 \<in> set (parked (cond (payload sys_hung))) \<and> stop (payload sys_hung) \<and>
   run conv0 w0 args0 [Select TimerC, Select StopC] sys_hung = Some sys_hung_end \<and>
   7 \<in> set (parked (cond (payload sys_hung_end))) \<and> full (payload sys_hung_end) = None \<and>
   step conv0 w0 args0 (WaitReturns 7) sys_hung_end = Disabled \<and>
   step conv0 w0 args0 (CallResolveFull 8) sys_hung_end = Step sys_hung_end (Some NoData)"
proof -
  have h3: "7 \<in> set (parked (cond (payload sys_hung)))" by (simp add: example_defs)
  have h4: "stop (payload sys_hung)" by (simp add: example_defs)
  have n: "8 \<notin> set (parked (cond (payload sys_hung_end)))"
    "8 \<notin> set (woken (cond (payload sys_hung_end)))"
    by (simp_all add: example_defs)
  from blocked_caller_stays_blocked [OF build_sys0 run_hung h3 h4 run_hung_end, of 8] n
  have "7 \<in> set (parked (cond (payload sys_hung_end))) \<and> full (payload sys_hung_end) = None \<and>
    step conv0 w0 args0 (WaitReturns 7) sys_hung_end = Disabled \<and>
    step conv0 w0 args0 (CallResolveFull 8) sys_hung_end = Step sys_hung_end (Some NoData)"
    by blast
  with build_sys0 run_hung h3 h4 run_hung_end show ?thesis by blast
qed

text \<open>
  The claim as it stands fails on the fresh system: goroutine 7 calls \<open>ResolveFull\<close> and
  parks, \<open>Resolve\<close> closes \<open>stop\<close> and returns the empty block, and goroutine 7 is still
  parked, not woken, its \<open>Wait\<close> cannot return; after one more iteration on the timer
  the loop leaves through \<open>stop\<close> with goroutine 7 parked as before.
\<close>

theorem cancel_releases_waiter_counterexample:
  "buildPayload w0 args0 = Inr sys0 \<and>
   step conv0 w0 args0 (CallResolveFull 7) sys0 = Step sys_parked (Some Parks) \<and>
   step conv0 w0 args0 CallResolve sys_parked = Step sys_hung (Some (Data 100)) \<and>
   stop (payload sys_hung) \<and> full (payload sys_hung) = None \<and>
   parked (cond (payload sys_hung)) = [7] \<and> woken (cond (payload sys_hung)) = [] \<and>
   step conv0 w0 args0 (WaitReturns 7) sys_hung = Disabled \<and>
   run conv0 w0 args0 [Select TimerC, Select StopC] sys_hung = Some sys_hung_end \<and>
   exited (routine sys_hung_end) \<and>
   parked (cond (payload sys_hung_end)) = [7] \<and> woken (cond (payload sys_hung_end)) = [] \<and>
   step conv0 w0 args0 (WaitReturns 7) sys_hung_end = Disabled"
proof -
  have "stop (payload sys_hung) \<and> full (payload sys_hung) = None \<and>
    parked (cond (payload sys_hung)) = [7] \<and> woken (cond (payload sys_hung)) = [] \<and>
    step conv0 w0 args0 (WaitReturns 7) sys_hung = Disabled"
    by (simp add: example_defs)
  moreover have "exited (routine sys_hung_end) \<and>
    parked (cond (payload sys_hung_end)) = [7] \<and> woken (cond (payload sys_hung_end)) = [] \<and>
    step conv0 w0 args0 (WaitReturns 7) sys_hung_end = Disabled"
    by (simp add: example_defs)
  ultimately show ?thesis
    using build_sys0 step_parks step_hangs run_hung_end by blast
qed

text \<open>
  C2, as amended. On a payload whose \<open>stop\<close> is open, \<open>update\<close> replaces \<open>full\<close> and its
  fee if and only if \<open>full\<close> is nil or the new fees are strictly higher than the stored
  ones; on a payload whose \<open>stop\<close> is closed it replaces nothing. So an update with fees
  at most the stored ones, ties included, leaves \<open>full\<close> and its fee as they were, and
  along any run of updates the fees of the blocks stored one after the other, starting
  from the fee stored before the run, are strictly increasing; the run ends with the
  last block stored.
\<close>

theorem update_strictly_improves:
  assumes "has_fees p"
  shows "(\<exists>p'. update p block fees = Inr p' \<and> stop p' = stop p \<and>
            (if \<not> stop p \<and> (full p = None \<or> (\<exists>g. fullFees p = Some g \<and> g < fees))
             then full p' = Some block \<and> fullFees p' = Some fees
             else full p' = full p \<and> fullFees p' = fullFees p)) \<and>
         (\<exists>p'. updates p us = Inr p' \<and> stop p' = stop p \<and>
            sorted_wrt (<) (map snd (accepted p us)) \<and>
            (case accepted p us of
               [] \<Rightarrow> full p' = full p \<and> fullFees p' = fullFees p
             | _ \<Rightarrow> full p' = Some (fst (last (accepted p us))) \<and>
                    fullFees p' = Some (snd (last (accepted p us)))) \<and>
            (full p = None \<or>
             (\<exists>g. fullFees p = Some g \<and> sorted_wrt (<) (g # map snd (accepted p us)))))"
proof (rule conjI)
  show "\<exists>p'. update p block fees = Inr p' \<and> stop p' = stop p \<and>
            (if \<not> stop p \<and> (full p = None \<or> (\<exists>g. fullFees p = Some g \<and> g < fees))
             then full p' = Some block \<and> fullFees p' = Some fees
             else full p' = full p \<and> fullFees p' = fullFees p)"
  proof (cases "stop p")
    case True
    then show ?thesis by (simp add: update_stopped)
  next
    case False
    with assms show ?thesis
      by (auto simp: update_running has_fees_def)
  qed
next
  from updates_accepted [OF assms, of us]
  show "\<exists>p'. updates p us = Inr p' \<and> stop p' = stop p \<and>
            sorted_wrt (<) (map snd (accepted p us)) \<and>
            (case accepted p us of
               [] \<Rightarrow> full p' = full p \<and> fullFees p' = fullFees p
             | _ \<Rightarrow> full p' = Some (fst (last (accepted p us))) \<and>
                    fullFees p' = Some (snd (last (accepted p us)))) \<and>
            (full p = None \<or>
             (\<exists>g. fullFees p = Some g \<and> sorted_wrt (<) (g # map snd (accepted p us))))"
    by blast
qed

theorem update_strictly_improves_witness:
  "has_fees payload_built \<and>
   (\<exists>p'. update payload_built 5 10 = Inr p' \<and> full p' = Some 1 \<and> fullFees p' = Some 10) \<and>
   (\<exists>p'. update payload_built 5 11 = Inr p' \<and> full p' = Some 5 \<and> fullFees p' = Some 11) \<and>
   accepted payload_built [(5, 10), (6, 30), (7, 20), (8, 30), (9, 31)] = [(6, 30), (9, 31)] \<and>
   (\<exists>p'. updates payload_built [(5, 10), (6, 30), (7, 20), (8, 30), (9, 31)] = Inr p' \<and>
      full p' = Some 9 \<and> fullFees p' = Some 31)"
proof -
  have h: "has_fees payload_built" by (simp add: has_fees_def example_defs)
  have f: "\<not> stop payload_built" "full payload_built = Some 1" "fullFees payload_built = Some 10"
    by (simp_all add: example_defs)
  have a: "accepted payload_built [(5, 10), (6, 30), (7, 20), (8, 30), (9, 31)] = [(6, 30), (9, 31)]"
    by (simp add: example_defs model_defs)
  from update_strictly_improves [OF h, of 5 10 "[]"] f
  have 1: "\<exists>p'. update payload_built 5 10 = Inr p' \<and> full p' = Some 1 \<and> fullFees p' = Some 10"
    by auto
  from update_strictly_improves [OF h, of 5 11 "[(5, 10), (6, 30), (7, 20), (8, 30), (9, 31)]"] f
  have 2: "\<exists>p'. update payload_built 5 11 = Inr p' \<and> full p' = Some 5 \<and> fullFees p' = Some 11"
    and 3: "\<exists>p'. updates payload_built [(5, 10), (6, 30), (7, 20), (8, 30), (9, 31)] = Inr p' \<and>
      full p' = Some 9 \<and> fullFees p' = Some 31"
    by (auto simp add: a simp del: accepted.simps updates.simps)
  from h 1 2 3 a show ?thesis by blast
qed

text \<open>
  The claim as it stands fails on a cancelled payload: after \<open>Resolve\<close> on the fresh
  payload \<open>full\<close> is nil, and \<open>update\<close> still stores nothing.
\<close>

theorem update_iff_counterexample:
  "newPayload 0 = payload0 \<and>
   Resolve conv0 payload0 = Inr (payload0\<lparr>stop := True\<rparr>, 100) \<and>
   full (payload0\<lparr>stop := True\<rparr>) = None \<and>
   update (payload0\<lparr>stop := True\<rparr>) 1 10 = Inr (payload0\<lparr>stop := True\<rparr>)"
  by (simp add: example_defs model_defs)

text \<open>
  C3. After any run of updates on a new payload, \<open>Resolve\<close> returns the conversion of
  \<open>full\<close> when it is set and of the empty block otherwise. With no update \<open>full\<close> is nil;
  otherwise \<open>full\<close> and its fee are the last accepted update, and that fee is the highest
  fee among the accepted updates, which is also the highest among all the updates.
\<close>

theorem Resolve_returns_highest:
  "\<exists>p. updates (newPayload e) us = Inr p \<and> \<not> stop p \<and>
     Resolve conv p = Inr (p\<lparr>stop := True\<rparr>, conv (case full p of None \<Rightarrow> e | Some b \<Rightarrow> b)) \<and>
     (us = [] \<and> full p = None \<or>
      (\<exists>b m. full p = Some b \<and> fullFees p = Some m \<and>
         last (accepted (newPayload e) us) = (b, m) \<and>
         m = Max (snd ` set (accepted (newPayload e) us)) \<and>
         m = Max (snd ` set us)))"
proof (cases us)
  case Nil
  then show ?thesis by (simp add: Resolve_eq newPayload_def)
next
  case (Cons u us')
  have n: "\<not> stop (newPayload e)" "full (newPayload e) = None"
    by (simp_all add: newPayload_def)
  let ?acc = "accepted (newPayload e) (u # us')"
  from updates_fresh [OF n, of u us'] obtain p b m where
    r: "updates (newPayload e) (u # us') = Inr p" "\<not> stop p" "empty p = empty (newPayload e)"
       "full p = Some b" "fullFees p = Some m"
       "?acc \<noteq> []" "last ?acc = (b, m)"
       "\<forall>v \<in> set (u # us'). snd v \<le> m" "set ?acc \<subseteq> set (u # us')"
    by blast
  from r(6,7) have mem: "(b, m) \<in> set ?acc" using last_in_set by metis
  then have m1: "m \<in> snd ` set ?acc" by force
  with r(9) have m2: "m \<in> snd ` set (u # us')" by blast
  have "Max (snd ` set ?acc) = m"
  proof (rule Max_eqI)
    show "finite (snd ` set ?acc)" by simp
    show "\<And>y. y \<in> snd ` set ?acc \<Longrightarrow> y \<le> m" using r(8,9) by blast
    show "m \<in> snd ` set ?acc" by (rule m1)
  qed
  moreover have "Max (snd ` set (u # us')) = m"
  proof (rule Max_eqI)
    show "finite (snd ` set (u # us'))" by simp
    show "\<And>y. y \<in> snd ` set (u # us') \<Longrightarrow> y \<le> m" using r(8) by blast
    show "m \<in> snd ` set (u # us')" by (rule m2)
  qed
  moreover have "Resolve conv p = Inr (p\<lparr>stop := True\<rparr>, conv b)"
    using r(4) by (simp add: Resolve_eq)
  ultimately show ?thesis using r(1,2,4,5,7) Cons
    by (auto simp del: accepted.simps updates.simps)
qed

text \<open>
  The three updates with fees 5, 3 and 10 on the new payload around block 0: the second
  is rejected, the third is stored, and \<open>Resolve\<close> returns its conversion.
\<close>

theorem Resolve_returns_highest_witness:
  "accepted (newPayload (0 :: nat)) [(1, 5), (2, 3), (3, 10)] = [(1 :: nat, 5), (3, 10)] \<and>
   Max (snd ` set [(1 :: nat, 5 :: int), (2, 3), (3, 10)]) = 10 \<and>
   updates (newPayload 0) [(1, 5), (2, 3), (3, 10)] =
     Inr (payload0\<lparr>full := Some 3, fullFees := Some 10\<rparr>) \<and>
   Resolve conv0 (payload0\<lparr>full := Some 3, fullFees := Some 10\<rparr>) =
     Inr (payload0\<lparr>full := Some 3, fullFees := Some 10, stop := True\<rparr>, 103)"
proof -
  have a: "accepted (newPayload (0 :: nat)) [(1, 5), (2, 3), (3, 10)] = [(1 :: nat, 5), (3, 10)]"
    by (simp add: model_defs)
  have m: "Max (snd ` set [(1 :: nat, 5 :: int), (2, 3), (3, 10)]) = 10" by simp
  from Resolve_returns_highest [of "0 :: nat" "[(1, 5), (2, 3), (3, 10)]" conv0]
  obtain p b where p: "updates (newPayload 0) [(1, 5), (2, 3), (3, 10)] = Inr p"
    "Resolve conv0 p = Inr (p\<lparr>stop := True\<rparr>, conv0 (case full p of None \<Rightarrow> 0 | Some b \<Rightarrow> b))"
    "full p = Some b" "last (accepted (newPayload 0) [(1, 5), (2, 3), (3, 10)]) = (b, 10)"
    by (auto simp only: m list.distinct)
  from p(4) a have b: "b = 3" by simp
  have u: "updates (newPayload 0) [(1, 5), (2, 3), (3, 10)] =
      Inr (payload0\<lparr>full := Some 3, fullFees := Some 10\<rparr>)"
    by (simp add: model_defs example_defs)
  with p(1) have "p = payload0\<lparr>full := Some 3, fullFees := Some 10\<rparr>" by simp
  with p(2,3) b have "Resolve conv0 (payload0\<lparr>full := Some 3, fullFees := Some 10\<rparr>) =
      Inr (payload0\<lparr>full := Some 3, fullFees := Some 10, stop := True\<rparr>, 103)"
    by (simp add: conv0_def)
  with a m u show ?thesis by blast
qed

text \<open>
  C4. Once \<open>Resolve\<close> has been called, whatever else has happened since, \<open>stop\<close> is
  closed and every \<open>update\<close> returns without a panic and leaves the payload exactly as
  it was; so does any run of updates, and so does an iteration of the goroutine's loop
  on its timer.
\<close>

theorem stale_update_noop:
  assumes "run conv w args evs s = Some s'" and "CallResolve \<in> set evs"
  shows "stop (payload s') \<and> update (payload s') block fees = Inr (payload s') \<and>
         updates (payload s') us = Inr (payload s') \<and>
         (\<exists>s''. loop_body w args TimerC s' = Inr s'' \<and> payload s'' = payload s')"
proof -
  from assms have st: "stop (payload s')" by (rule run_after_Resolve)
  then show ?thesis
    by (auto simp: update_stopped updates_stopped split: sum.splits)
qed

theorem stale_update_noop_witness:
  "run conv0 w0 args0 [Select TimerC, CallResolve, CallResolveEmpty] sys0 =
     Some (sys_built\<lparr>payload := payload_built\<lparr>stop := True\<rparr>\<rparr>) \<and>
   CallResolve \<in> set [Select TimerC, CallResolve, CallResolveEmpty] \<and>
   update (payload_built\<lparr>stop := True\<rparr>) 5 50 = Inr (payload_built\<lparr>stop := True\<rparr>) \<and>
   updates (payload_built\<lparr>stop := True\<rparr>) [(5, 50), (6, 60)] = Inr (payload_built\<lparr>stop := True\<rparr>)"
proof -
  have h1: "run conv0 w0 args0 [Select TimerC, CallResolve, CallResolveEmpty] sys0 =
     Some (sys_built\<lparr>payload := payload_built\<lparr>stop := True\<rparr>\<rparr>)"
    by (simp add: example_defs model_defs)
  have h2: "CallResolve \<in> set [Select TimerC, CallResolve, CallResolveEmpty]" by simp
  have c: "update (payload_built\<lparr>stop := True\<rparr>) 5 50 = Inr (payload_built\<lparr>stop := True\<rparr>) \<and>
     updates (payload_built\<lparr>stop := True\<rparr>) [(5, 50), (6, 60)] = Inr (payload_built\<lparr>stop := True\<rparr>)"
    using stale_update_noop [OF h1 h2, of 5 50 "[(5, 50), (6, 60)]"]
    by (simp del: updates.simps)
  from h1 h2 c show ?thesis by blast
qed

text \<open>
  C5. \<open>Resolve\<close> is idempotent. On every payload it returns without a panic, closes
  \<open>stop\<close> and returns the conversion of \<open>full\<close>, or of \<open>empty\<close> when \<open>full\<close> is nil. Called
  again on the payload it left, it returns the same data and leaves the payload as it
  was; so any number of calls in a row return the same data each time and end in the
  state the first call left.
\<close>

theorem Resolve_idempotent:
  "Resolve conv p = Inr (p\<lparr>stop := True\<rparr>, conv (case full p of None \<Rightarrow> empty p | Some b \<Rightarrow> b)) \<and>
   Resolve conv (p\<lparr>stop := True\<rparr>) =
     Inr (p\<lparr>stop := True\<rparr>, conv (case full p of None \<Rightarrow> empty p | Some b \<Rightarrow> b)) \<and>
   Resolves conv (Suc n) p =
     Inr (p\<lparr>stop := True\<rparr>,
          replicate (Suc n) (conv (case full p of None \<Rightarrow> empty p | Some b \<Rightarrow> b)))"
proof (intro conjI)
  show "Resolve conv p =
      Inr (p\<lparr>stop := True\<rparr>, conv (case full p of None \<Rightarrow> empty p | Some b \<Rightarrow> b))"
    by (rule Resolve_eq)
  have "Resolve conv (p\<lparr>stop := True\<rparr>) =
      Inr (p\<lparr>stop := True\<rparr>\<lparr>stop := True\<rparr>,
           conv (case full (p\<lparr>stop := True\<rparr>) of None \<Rightarrow> empty (p\<lparr>stop := True\<rparr>) | Some b \<Rightarrow> b))"
    by (rule Resolve_eq)
  then show "Resolve conv (p\<lparr>stop := True\<rparr>) =
      Inr (p\<lparr>stop := True\<rparr>, conv (case full p of None \<Rightarrow> empty p | Some b \<Rightarrow> b))"
    by (simp split: option.splits)
  show "Resolves conv (Suc n) p =
     Inr (p\<lparr>stop := True\<rparr>,
          replicate (Suc n) (conv (case full p of None \<Rightarrow> empty p | Some b \<Rightarrow> b)))"
    by (rule Resolves_eq)
qed

text \<open>
  C6. \<open>buildPayload\<close> first calls \<open>getSealingBlock\<close> with \<open>noTxs = true\<close>. When that call
  fails, \<open>buildPayload\<close> returns its error and nothing else: no payload, no goroutine.
  When it succeeds, \<open>buildPayload\<close> returns a new payload around the empty block and
  has started the goroutine, which has run no iteration yet: no rebuild has been asked
  for, the rebuild timer is armed with 0 and the deadline timer with twelve seconds,
  and \<open>ResolveEmpty\<close> and \<open>Resolve\<close> already return the empty block.
\<close>

theorem buildPayload_baseline_first:
  "(\<forall>err. getSealingBlock w (Parent args) (Timestamp args) (FeeRecipient args) (Random args)
            True 0 = Inl err \<longrightarrow>
      buildPayload w args = Inl err) \<and>
   (\<forall>block fees. getSealingBlock w (Parent args) (Timestamp args) (FeeRecipient args) (Random args)
            True 0 = Inr (block, fees) \<longrightarrow>
      (\<exists>s. buildPayload w args = Inr s \<and> payload s = newPayload block \<and> builds s = 1 \<and>
           routine s = \<lparr>timer = Some 0, endTimer = Some (Second * 12), exited = False\<rparr> \<and>
           ready TimerC s \<and> ready EndTimerC s \<and> \<not> ready StopC s \<and>
           step conv w args CallResolveEmpty s = Step s (Some (Data (conv block))) \<and>
           step conv w args CallResolve s =
             Step (s\<lparr>payload := (newPayload block)\<lparr>stop := True\<rparr>\<rparr>) (Some (Data (conv block)))))"
proof (intro conjI allI impI)
  fix err
  assume "getSealingBlock w (Parent args) (Timestamp args) (FeeRecipient args) (Random args)
            True 0 = Inl err"
  then show "buildPayload w args = Inl err" by (simp add: buildPayload_def)
next
  fix block fees
  assume g: "getSealingBlock w (Parent args) (Timestamp args) (FeeRecipient args) (Random args)
            True 0 = Inr (block, fees)"
  let ?s = "\<lparr>payload = newPayload block,
             routine = \<lparr>timer = Some 0, endTimer = Some (Second * 12), exited = False\<rparr>,
             builds = 1\<rparr>"
  from g have b: "buildPayload w args = Inr ?s" by (simp add: buildPayload_def)
  have e: "step conv w args CallResolveEmpty ?s = Step ?s (Some (Data (conv block)))"
    by (simp add: ResolveEmpty_def BlockToExecutableData_def newPayload_def)
  have r: "step conv w args CallResolve ?s =
      Step (?s\<lparr>payload := (newPayload block)\<lparr>stop := True\<rparr>\<rparr>) (Some (Data (conv block)))"
    by (simp add: Resolve_eq newPayload_def del: step.simps add: step_CallResolve)
  have "ready TimerC ?s \<and> ready EndTimerC ?s \<and> \<not> ready StopC ?s"
    by (simp add: newPayload_def)
  with b e r show "\<exists>s. buildPayload w args = Inr s \<and> payload s = newPayload block \<and> builds s = 1 \<and>
           routine s = \<lparr>timer = Some 0, endTimer = Some (Second * 12), exited = False\<rparr> \<and>
           ready TimerC s \<and> ready EndTimerC s \<and> \<not> ready StopC s \<and>
           step conv w args CallResolveEmpty s = Step s (Some (Data (conv block))) \<and>
           step conv w args CallResolve s =
             Step (s\<lparr>payload := (newPayload block)\<lparr>stop := True\<rparr>\<rparr>) (Some (Data (conv block)))"
    by (intro exI [of _ ?s]) simp
qed

theorem buildPayload_baseline_first_witness:
  "getSealingBlock w_closed (Parent args0) (Timestamp args0) (FeeRecipient args0) (Random args0)
     True 0 = Inl ''miner closed'' \<and>
   buildPayload w_closed args0 = Inl ''miner closed'' \<and>
   getSealingBlock w0 (Parent args0) (Timestamp args0) (FeeRecipient args0) (Random args0)
     True 0 = Inr (0, 0) \<and>
   buildPayload w0 args0 = Inr sys0 \<and>
   step conv0 w0 args0 CallResolveEmpty sys0 = Step sys0 (Some (Data 100))"
proof -
  have h1: "getSealingBlock w_closed (Parent args0) (Timestamp args0) (FeeRecipient args0)
      (Random args0) True 0 = Inl ''miner closed''"
    by (simp add: example_defs)
  have h2: "getSealingBlock w0 (Parent args0) (Timestamp args0) (FeeRecipient args0)
      (Random args0) True 0 = Inr (0, 0)"
    by (simp add: example_defs)
  from buildPayload_baseline_first [of w_closed args0 conv0] h1
  have c1: "buildPayload w_closed args0 = Inl ''miner closed''" by blast
  from buildPayload_baseline_first [of w0 args0 conv0] h2
  obtain s where s: "buildPayload w0 args0 = Inr s"
    "step conv0 w0 args0 CallResolveEmpty s = Step s (Some (Data (conv0 0)))"
    by blast
  from s(1) build_sys0 have "s = sys0" by simp
  with s(2) have c2: "step conv0 w0 args0 CallResolveEmpty sys0 = Step sys0 (Some (Data 100))"
    by (simp add: conv0_def del: step.simps)
  from h1 c1 h2 build_sys0 c2 show ?thesis by blast
qed

text \<open>
  C7. On a payload a running system can reach, with \<open>stop\<close> open, an \<open>update\<close> that is
  rejected (\<open>full\<close> set and the fees not strictly higher) returns the payload exactly as
  it was: nobody is parked when \<open>full\<close> is set, so its broadcast wakes nobody. An
  \<open>update\<close> that does change the condition variable found \<open>stop\<close> open and \<open>full\<close> nil
  and has stored its block and fees.
\<close>

theorem rejected_update_wakes_nobody:
  assumes "buildPayload w args = Inr s0" and "run conv w args evs s0 = Some s"
  shows "(\<not> stop (payload s) \<and> full (payload s) = Some b \<and> fullFees (payload s) = Some g \<and>
            fees \<le> g \<longrightarrow>
          update (payload s) block fees = Inr (payload s)) \<and>
         (\<forall>p'. update (payload s) block fees = Inr p' \<and> cond p' \<noteq> cond (payload s) \<longrightarrow>
            \<not> stop (payload s) \<and> full (payload s) = None \<and>
            full p' = Some block \<and> fullFees p' = Some fees \<and>
            parked (cond p') = [] \<and>
            woken (cond p') = woken (cond (payload s)) @ parked (cond (payload s)))"
proof -
  from assms have snd: "sound (payload s)" by (rule reachable_sound)
  then have hf: "has_fees (payload s)" by (rule sound_has_fees)
  have quiet: "Broadcast (cond (payload s)) = cond (payload s)" if "full (payload s) \<noteq> None"
    using snd that by (auto simp: sound_def Broadcast_def)
  show ?thesis
  proof (cases "stop (payload s)")
    case True
    then show ?thesis by (simp add: update_stopped)
  next
    case False
    show ?thesis
    proof (cases "full (payload s)")
      case None
      with False hf show ?thesis by (simp add: update_running Broadcast_def)
    next
      case (Some b')
      with quiet have "Broadcast (cond (payload s)) = cond (payload s)" by simp
      with False hf Some show ?thesis by (auto simp: update_running)
    qed
  qed
qed

theorem rejected_update_wakes_nobody_witness:
  "buildPayload w0 args0 = Inr sys0 \<and>
   run conv0 w0 args0 [Select TimerC] sys0 = Some sys_built \<and>
   \<not> stop (payload sys_built) \<and> full (payload sys_built) = Some 1 \<and>
   fullFees (payload sys_built) = Some 10 \<and> (10 :: int) \<le> 10 \<and>
   update (payload sys_built) 5 10 = Inr (payload sys_built) \<and>
   run conv0 w0 args0 [CallResolveFull 7] sys0 = Some sys_parked \<and>
   update (payload sys_parked) 1 10 = Inr (payload sys_woken) \<and>
   cond (payload sys_woken) \<noteq> cond (payload sys_parked) \<and>
   full (payload sys_parked) = None \<and> full (payload sys_woken) = Some 1 \<and>
   woken (cond (payload sys_woken)) = [7]"
proof -
  have h: "\<not> stop (payload sys_built) \<and> full (payload sys_built) = Some 1 \<and>
      fullFees (payload sys_built) = Some 10 \<and> (10 :: int) \<le> 10"
    by (simp add: example_defs)
  from rejected_update_wakes_nobody [OF build_sys0 run_built, of 1 10 10 5] h
  have c1: "update (payload sys_built) 5 10 = Inr (payload sys_built)" by blast
  have u: "update (payload sys_parked) 1 10 = Inr (payload sys_woken)"
    by (simp add: example_defs model_defs)
  have d: "cond (payload sys_woken) \<noteq> cond (payload sys_parked)"
    by (simp add: example_defs)
  from rejected_update_wakes_nobody [OF build_sys0 run_parked, of 1 10 10 1] u d
  have c2: "full (payload sys_parked) = None \<and> full (payload sys_woken) = Some 1"
    by blast
  have c3: "woken (cond (payload sys_woken)) = [7]" by (simp add: example_defs)
  from build_sys0 run_built h c1 run_parked u d c2 c3 show ?thesis by blast
qed

text \<open>
  C8, as amended. The loop never returns because of a failed build: an iteration on the
  rebuild timer whose \<open>getSealingBlock\<close> fails drops the error, leaves the payload alone,
  makes the rebuild timer due \<open>recommit\<close> later and goes on looping; no iteration on the
  rebuild timer, failed or not, returns. The loop returns only through the \<open>stop\<close> case
  of its \<open>select\<close>, open once \<open>Resolve\<close> has closed \<open>stop\<close>, or through the case of the
  deadline timer, due twelve seconds after its creation and never re-armed; once one of
  the two signals has fired its case stays open until the loop returns, and after the
  return no iteration follows. The return need not come when the signal fires: a
  \<open>select\<close> that finds the rebuild timer due as well may rebuild first (once \<open>stop\<close> is
  closed that rebuild leaves the payload as it was); while the rebuild timer is not due
  the rebuild case is closed.
\<close>

theorem loop_exit_timing:
  assumes "buildPayload w args = Inr s0"
    and "trun conv w args evs (start s0) = Some t"
    and "trun conv w args evs' t = Some t'"
  shows "exited (routine (sys t)) =
           (Do (Select StopC) \<in> set evs \<or> Do (Select EndTimerC) \<in> set evs) \<and>
         (Do (Select StopC) \<in> set evs \<longrightarrow> Do CallResolve \<in> set evs) \<and>
         (Do (Select EndTimerC) \<in> set evs \<longrightarrow> Second * 12 \<le> now t) \<and>
         endDue t = Some (Second * 12) \<and>
         (exited (routine (sys t)) \<longrightarrow> tstep conv w args (Do (Select c)) t = Disabled) \<and>
         (\<not> exited (routine (sys t)) \<longrightarrow>
            tstep conv w args (Do (Select EndTimerC)) t =
              (if Second * 12 \<le> now t then Step (returned t) None else Disabled) \<and>
            tstep conv w args (Do (Select StopC)) t =
              (if stop (payload (sys t)) then Step (returned t) None else Disabled) \<and>
            (\<exists>d. timerDue t = Some d \<and>
               (now t < d \<longrightarrow> tstep conv w args (Do (Select TimerC)) t = Disabled) \<and>
               (\<forall>err. d \<le> now t \<and>
                    getSealingBlock w (Parent args) (Timestamp args) (FeeRecipient args)
                      (Random args) False (builds (sys t)) = Inl err \<longrightarrow>
                  tstep conv w args (Do (Select TimerC)) t =
                    Step (t\<lparr>sys := (sys t)\<lparr>routine := (routine (sys t))\<lparr>timer := Some (recommit w)\<rparr>,
                                        builds := Suc (builds (sys t))\<rparr>,
                            timerDue := Some (now t + recommit w)\<rparr>) None))) \<and>
         (\<not> exited (routine (sys t')) \<longrightarrow>
            (stop (payload (sys t)) \<longrightarrow>
               tstep conv w args (Do (Select StopC)) t' = Step (returned t') None) \<and>
            (Second * 12 \<le> now t \<longrightarrow>
               tstep conv w args (Do (Select EndTimerC)) t' = Step (returned t') None)) \<and>
         (\<forall>t1 out. tstep conv w args (Do (Select TimerC)) t = Step t1 out \<longrightarrow>
            \<not> exited (routine (sys t1)) \<and> now t1 = now t \<and>
            timerDue t1 = Some (now t + recommit w) \<and>
            (stop (payload (sys t)) \<longrightarrow> payload (sys t1) = payload (sys t)))"
proof -
  from buildPayload_fresh [OF assms(1)] have
    f: "\<not> stop (payload s0)" "\<not> exited (routine s0)"
    by simp_all
  from timed_reachable [OF assms(1,2)] have
    d: "endDue t = Some (Second * 12)" and a: "armed (routine (sys t))"
    and td: "exited (routine (sys t)) \<or> timerDue t \<noteq> None"
    and r: "run conv w args (untimed evs) s0 = Some (sys t)"
    by simp_all
  from run_exited [OF r] f(2)
  have 1: "exited (routine (sys t)) =
      (Do (Select StopC) \<in> set evs \<or> Do (Select EndTimerC) \<in> set evs)"
    by (simp add: untimed_mem)
  from run_stop [OF r] f(1) have st: "stop (payload (sys t)) = (Do CallResolve \<in> set evs)"
    by (simp add: untimed_mem)
  have 2: "Do (Select StopC) \<in> set evs \<longrightarrow> Do CallResolve \<in> set evs"
    using run_StopC [OF r] st by (simp add: untimed_mem)
  have 3: "Do (Select EndTimerC) \<in> set evs \<longrightarrow> Second * 12 \<le> now t"
  proof
    assume "Do (Select EndTimerC) \<in> set evs"
    from trun_deadline [OF assms(2) this] obtain d' where
      "endDue (start s0) = Some d'" "d' \<le> now t" by blast
    moreover from trun_clock [OF assms(2)] d have "endDue (start s0) = Some (Second * 12)" by simp
    ultimately show "Second * 12 \<le> now t" by simp
  qed
  have 5: "exited (routine (sys t)) \<longrightarrow> tstep conv w args (Do (Select c)) t = Disabled"
    by (cases c) simp_all
  have 6: "\<not> exited (routine (sys t)) \<longrightarrow>
            tstep conv w args (Do (Select EndTimerC)) t =
              (if Second * 12 \<le> now t then Step (returned t) None else Disabled) \<and>
            tstep conv w args (Do (Select StopC)) t =
              (if stop (payload (sys t)) then Step (returned t) None else Disabled) \<and>
            (\<exists>d. timerDue t = Some d \<and>
               (now t < d \<longrightarrow> tstep conv w args (Do (Select TimerC)) t = Disabled) \<and>
               (\<forall>err. d \<le> now t \<and>
                    getSealingBlock w (Parent args) (Timestamp args) (FeeRecipient args)
                      (Random args) False (builds (sys t)) = Inl err \<longrightarrow>
                  tstep conv w args (Do (Select TimerC)) t =
                    Step (t\<lparr>sys := (sys t)\<lparr>routine := (routine (sys t))\<lparr>timer := Some (recommit w)\<rparr>,
                                        builds := Suc (builds (sys t))\<rparr>,
                            timerDue := Some (now t + recommit w)\<rparr>) None))"
  proof
    assume ne: "\<not> exited (routine (sys t))"
    with td obtain d' where d': "timerDue t = Some d'" by auto
    from ne a have tm: "timer (routine (sys t)) \<noteq> None" by (simp add: armed_def)
    have "(now t < d' \<longrightarrow> tstep conv w args (Do (Select TimerC)) t = Disabled) \<and>
               (\<forall>err. d' \<le> now t \<and>
                    getSealingBlock w (Parent args) (Timestamp args) (FeeRecipient args)
                      (Random args) False (builds (sys t)) = Inl err \<longrightarrow>
                  tstep conv w args (Do (Select TimerC)) t =
                    Step (t\<lparr>sys := (sys t)\<lparr>routine := (routine (sys t))\<lparr>timer := Some (recommit w)\<rparr>,
                                        builds := Suc (builds (sys t))\<rparr>,
                            timerDue := Some (now t + recommit w)\<rparr>) None)"
      using d' ne tm by auto
    with d' exits_open [OF d a ne, of conv w args]
    show "tstep conv w args (Do (Select EndTimerC)) t =
              (if Second * 12 \<le> now t then Step (returned t) None else Disabled) \<and>
            tstep conv w args (Do (Select StopC)) t =
              (if stop (payload (sys t)) then Step (returned t) None else Disabled) \<and>
            (\<exists>d. timerDue t = Some d \<and>
               (now t < d \<longrightarrow> tstep conv w args (Do (Select TimerC)) t = Disabled) \<and>
               (\<forall>err. d \<le> now t \<and>
                    getSealingBlock w (Parent args) (Timestamp args) (FeeRecipient args)
                      (Random args) False (builds (sys t)) = Inl err \<longrightarrow>
                  tstep conv w args (Do (Select TimerC)) t =
                    Step (t\<lparr>sys := (sys t)\<lparr>routine := (routine (sys t))\<lparr>timer := Some (recommit w)\<rparr>,
                                        builds := Suc (builds (sys t))\<rparr>,
                            timerDue := Some (now t + recommit w)\<rparr>) None))"
      by blast
  qed
  have 7: "\<not> exited (routine (sys t')) \<longrightarrow>
            (stop (payload (sys t)) \<longrightarrow>
               tstep conv w args (Do (Select StopC)) t' = Step (returned t') None) \<and>
            (Second * 12 \<le> now t \<longrightarrow>
               tstep conv w args (Do (Select EndTimerC)) t' = Step (returned t') None)"
  proof
    assume ne: "\<not> exited (routine (sys t'))"
    from assms(2,3) have "trun conv w args (evs @ evs') (start s0) = Some t'"
      by (simp add: trun_append)
    from timed_reachable [OF assms(1) this] have
      d': "endDue t' = Some (Second * 12)" and a': "armed (routine (sys t'))"
      by simp_all
    from trun_clock [OF assms(3)] have mono: "now t \<le> now t'" by simp
    from trun_untimed [OF assms(3)] have "run conv w args (untimed evs') (sys t) = Some (sys t')" .
    from run_stop_mono [OF this] have sm: "stop (payload (sys t)) \<Longrightarrow> stop (payload (sys t'))" .
    from exits_open [OF d' a' ne, of conv w args] mono sm
    show "(stop (payload (sys t)) \<longrightarrow>
               tstep conv w args (Do (Select StopC)) t' = Step (returned t') None) \<and>
            (Second * 12 \<le> now t \<longrightarrow>
               tstep conv w args (Do (Select EndTimerC)) t' = Step (returned t') None)"
      by auto
  qed
  have 8: "\<forall>t1 out. tstep conv w args (Do (Select TimerC)) t = Step t1 out \<longrightarrow>
            \<not> exited (routine (sys t1)) \<and> now t1 = now t \<and>
            timerDue t1 = Some (now t + recommit w) \<and>
            (stop (payload (sys t)) \<longrightarrow> payload (sys t1) = payload (sys t))"
  proof (intro allI impI)
    fix t1 out
    assume s: "tstep conv w args (Do (Select TimerC)) t = Step t1 out"
    then have b: "step conv w args (Select TimerC) (sys t) = Step (sys t1) out" by (rule tstep_Do)
    then have ne: "\<not> exited (routine (sys t))" by (auto split: if_splits)
    from step_exited [OF b] ne have x: "\<not> exited (routine (sys t1))" by simp
    from s have c: "now t1 = now t" "timerDue t1 = Some (now t + recommit w)"
      by (auto split: if_splits step_result.splits)
    from b have "loop_body w args TimerC (sys t) = Inr (sys t1)"
      by (auto split: if_splits sum.splits)
    from loop_body_payload [OF this]
    have p: "stop (payload (sys t)) \<longrightarrow> payload (sys t1) = payload (sys t)"
      by (auto simp: update_stopped)
    from x c p show "\<not> exited (routine (sys t1)) \<and> now t1 = now t \<and>
            timerDue t1 = Some (now t + recommit w) \<and>
            (stop (payload (sys t)) \<longrightarrow> payload (sys t1) = payload (sys t))"
      by simp
  qed
  from 1 2 3 d 5 6 7 8 show ?thesis by blast
qed

theorem loop_exit_timing_witness:
  "buildPayload w0 args0 = Inr sys0 \<and>
   trun conv0 w0 args0 [Do (Select TimerC), Advance 2000000000] (start sys0) = Some t_retry \<and>
   trun conv0 w0 args0 [] t_retry = Some t_retry \<and>
   \<not> exited (routine (sys t_retry)) \<and>
   tstep conv0 w0 args0 (Do (Select EndTimerC)) t_retry = Disabled \<and>
   tstep conv0 w0 args0 (Do (Select StopC)) t_retry = Disabled \<and>
   timerDue t_retry = Some 2000000000 \<and> 2000000000 \<le> now t_retry \<and>
   getSealingBlock w0 (Parent args0) (Timestamp args0) (FeeRecipient args0) (Random args0)
     False (builds (sys t_retry)) = Inl ''miner closed'' \<and>
   tstep conv0 w0 args0 (Do (Select TimerC)) t_retry = Step t_retried None \<and>
   trun conv0 w0 args0 [Do CallResolve, Do (Select TimerC)] (start sys0) = Some t_cancelled \<and>
   trun conv0 w0 args0 [Advance 1000000000] t_cancelled = Some (t_cancelled\<lparr>now := 1000000000\<rparr>) \<and>
   stop (payload (sys t_cancelled)) \<and> now t_cancelled < 2000000000 \<and>
   tstep conv0 w0 args0 (Do (Select TimerC)) t_cancelled = Disabled \<and>
   tstep conv0 w0 args0 (Do (Select StopC)) t_cancelled = Step (returned t_cancelled) None \<and>
   \<not> exited (routine (sys (t_cancelled\<lparr>now := 1000000000\<rparr>))) \<and>
   tstep conv0 w0 args0 (Do (Select StopC)) (t_cancelled\<lparr>now := 1000000000\<rparr>) =
     Step (returned (t_cancelled\<lparr>now := 1000000000\<rparr>)) None \<and>
   trun conv0 w0 args0 [Advance 12000000000, Do (Select EndTimerC)] (start sys0) = Some t_deadline \<and>
   Do (Select EndTimerC) \<in> set [Advance 12000000000, Do (Select EndTimerC)] \<and>
   exited (routine (sys t_deadline)) \<and> Second * 12 \<le> now t_deadline \<and>
   tstep conv0 w0 args0 (Do (Select TimerC)) t_deadline = Disabled"
proof -
  have r1: "trun conv0 w0 args0 [Do (Select TimerC), Advance 2000000000] (start sys0) = Some t_retry"
    by (simp add: timed_defs example_defs model_defs)
  have r1': "trun conv0 w0 args0 [] t_retry = Some t_retry" by simp
  have g: "getSealingBlock w0 (Parent args0) (Timestamp args0) (FeeRecipient args0) (Random args0)
      False (builds (sys t_retry)) = Inl ''miner closed''"
    by (simp add: timed_defs example_defs)
  have n1: "\<not> exited (routine (sys t_retry))" "timerDue t_retry = Some 2000000000"
    "2000000000 \<le> now t_retry" "\<not> stop (payload (sys t_retry))" "\<not> Second * 12 \<le> now t_retry"
    by (simp_all add: timed_defs example_defs Second_def)
  have e1: "t_retry\<lparr>sys := (sys t_retry)\<lparr>routine := (routine (sys t_retry))\<lparr>timer := Some (recommit w0)\<rparr>,
                                          builds := Suc (builds (sys t_retry))\<rparr>,
                     timerDue := Some (now t_retry + recommit w0)\<rparr> = t_retried"
    by (simp add: timed_defs example_defs Second_def)
  note T1 = loop_exit_timing [OF build_sys0 r1 r1', where c = TimerC]
  note F1 = T1 [THEN conjunct2, THEN conjunct2, THEN conjunct2, THEN conjunct2, THEN conjunct2,
    THEN conjunct1, THEN mp, OF n1(1)]
  from F1 [THEN conjunct1] n1(5)
  have a1: "tstep conv0 w0 args0 (Do (Select EndTimerC)) t_retry = Disabled"
    by (simp only: if_False)
  from F1 [THEN conjunct2, THEN conjunct1] n1(4)
  have a2: "tstep conv0 w0 args0 (Do (Select StopC)) t_retry = Disabled"
    by (simp only: if_False)
  from F1 [THEN conjunct2, THEN conjunct2] obtain d where
    d: "timerDue t_retry = Some d"
    and fl: "\<forall>err. d \<le> now t_retry \<and>
        getSealingBlock w0 (Parent args0) (Timestamp args0) (FeeRecipient args0) (Random args0)
          False (builds (sys t_retry)) = Inl err \<longrightarrow>
        tstep conv0 w0 args0 (Do (Select TimerC)) t_retry =
          Step (t_retry\<lparr>sys := (sys t_retry)\<lparr>routine := (routine (sys t_retry))\<lparr>timer := Some (recommit w0)\<rparr>,
                                          builds := Suc (builds (sys t_retry))\<rparr>,
                     timerDue := Some (now t_retry + recommit w0)\<rparr>) None"
    by (elim exE conjE)
  from d n1(2) have "d = 2000000000" by simp
  with n1(3) have "d \<le> now t_retry" by simp
  with g fl [THEN spec, of "''miner closed''"]
  have "tstep conv0 w0 args0 (Do (Select TimerC)) t_retry =
          Step (t_retry\<lparr>sys := (sys t_retry)\<lparr>routine := (routine (sys t_retry))\<lparr>timer := Some (recommit w0)\<rparr>,
                                          builds := Suc (builds (sys t_retry))\<rparr>,
                     timerDue := Some (now t_retry + recommit w0)\<rparr>) None"
    by (simp only: simp_thms)
  with e1 have a3: "tstep conv0 w0 args0 (Do (Select TimerC)) t_retry = Step t_retried None"
    by (simp only:)
  have r2: "trun conv0 w0 args0 [Do CallResolve, Do (Select TimerC)] (start sys0) = Some t_cancelled"
    by (simp add: timed_defs example_defs model_defs)
  have r2': "trun conv0 w0 args0 [Advance 1000000000] t_cancelled =
      Some (t_cancelled\<lparr>now := 1000000000\<rparr>)"
    by (simp add: timed_defs)
  have n2: "stop (payload (sys t_cancelled))" "now t_cancelled < 2000000000"
    "\<not> exited (routine (sys t_cancelled))" "timerDue t_cancelled = Some 2000000000"
    "\<not> exited (routine (sys (t_cancelled\<lparr>now := 1000000000\<rparr>)))"
    by (simp_all add: timed_defs example_defs)
  note T2 = loop_exit_timing [OF build_sys0 r2 r2', where c = TimerC]
  note F2 = T2 [THEN conjunct2, THEN conjunct2, THEN conjunct2, THEN conjunct2, THEN conjunct2,
    THEN conjunct1, THEN mp, OF n2(3)]
  from F2 [THEN conjunct2, THEN conjunct1] n2(1)
  have b2: "tstep conv0 w0 args0 (Do (Select StopC)) t_cancelled = Step (returned t_cancelled) None"
    by (simp only: if_True)
  from F2 [THEN conjunct2, THEN conjunct2] obtain d2 where
    d2: "timerDue t_cancelled = Some d2"
    and ds: "now t_cancelled < d2 \<longrightarrow> tstep conv0 w0 args0 (Do (Select TimerC)) t_cancelled = Disabled"
    by (elim exE conjE)
  from d2 n2(4) have "d2 = 2000000000" by simp
  with n2(2) ds have b1: "tstep conv0 w0 args0 (Do (Select TimerC)) t_cancelled = Disabled"
    by (simp only: simp_thms)
  note G2 = T2 [THEN conjunct2, THEN conjunct2, THEN conjunct2, THEN conjunct2, THEN conjunct2,
    THEN conjunct2, THEN conjunct1, THEN mp, OF n2(5), THEN conjunct1, THEN mp, OF n2(1)]
  have r3: "trun conv0 w0 args0 [Advance 12000000000, Do (Select EndTimerC)] (start sys0) =
      Some t_deadline"
    by (simp add: timed_defs example_defs model_defs)
  have r3': "trun conv0 w0 args0 [] t_deadline = Some t_deadline" by simp
  have m3: "Do (Select EndTimerC) \<in> set [Advance 12000000000, Do (Select EndTimerC)]" by simp
  note T3 = loop_exit_timing [OF build_sys0 r3 r3', where c = TimerC]
  from T3 [THEN conjunct1] m3 have c1: "exited (routine (sys t_deadline))" by (simp only: simp_thms)
  note c2 = T3 [THEN conjunct2, THEN conjunct2, THEN conjunct1, THEN mp, OF m3]
  note c3 = T3 [THEN conjunct2, THEN conjunct2, THEN conjunct2, THEN conjunct2, THEN conjunct1,
    THEN mp, OF c1]
  show ?thesis
    by (intro conjI build_sys0 r1 r1' n1(1) a1 a2 n1(2) n1(3) g a3 r2 r2' n2(1) n2(2) b1 b2 n2(5)
          G2 r3 m3 c1 c2 c3)
qed

text \<open>
  The claim as it stands fails twice on the system of \<open>w0\<close>. \<open>Resolve\<close> is called as soon
  as \<open>buildPayload\<close> has returned; the first \<open>select\<close> finds the rebuild timer, created
  with 0, ready as well as \<open>stop\<close>, takes the timer, and the loop has asked for a rebuild
  and is still running with \<open>stop\<close> closed. And with twelve seconds gone before the first
  iteration stores its block, that block is stored after the deadline and the loop is
  still running.
\<close>

theorem exit_at_signal_counterexample:
  "buildPayload w0 args0 = Inr sys0 \<and>
   trun conv0 w0 args0 [Do CallResolve, Do (Select TimerC)] (start sys0) = Some t_cancelled \<and>
   stop (payload (sys t_cancelled)) \<and> \<not> exited (routine (sys t_cancelled)) \<and>
   builds (sys t_cancelled) = 2 \<and>
   trun conv0 w0 args0 [Advance 12000000000, Do (Select TimerC)] (start sys0) =
     Some t_overdue_built \<and>
   Second * 12 \<le> now t_overdue_built \<and> \<not> exited (routine (sys t_overdue_built)) \<and>
   full (payload (sys t_overdue_built)) = Some 1"
proof -
  have 1: "trun conv0 w0 args0 [Do CallResolve, Do (Select TimerC)] (start sys0) = Some t_cancelled"
    by (simp add: timed_defs example_defs model_defs)
  have 2: "stop (payload (sys t_cancelled)) \<and> \<not> exited (routine (sys t_cancelled)) \<and>
      builds (sys t_cancelled) = 2"
    by (simp add: timed_defs example_defs)
  have 3: "trun conv0 w0 args0 [Advance 12000000000, Do (Select TimerC)] (start sys0) =
      Some t_overdue_built"
    by (simp add: timed_defs example_defs model_defs)
  have 4: "Second * 12 \<le> now t_overdue_built \<and> \<not> exited (routine (sys t_overdue_built)) \<and>
      full (payload (sys t_overdue_built)) = Some 1"
    by (simp add: timed_defs example_defs Second_def)
  from build_sys0 1 2 3 4 show ?thesis by blast
qed

text \<open>
  C9. While the loop runs it can leave through the deadline timer, and doing so
  changes the goroutine only: the payload, \<open>stop\<close> included, is as before. In a running
  system \<open>stop\<close> is closed exactly when \<open>Resolve\<close> has been called. After the deadline
  \<open>Resolve\<close> still returns the conversion of \<open>full\<close>, or of the empty block when \<open>full\<close>
  is nil, and it is that call which closes \<open>stop\<close>.
\<close>

theorem deadline_exit_keeps_stop:
  assumes "buildPayload w args = Inr s0"
    and "run conv w args evs s0 = Some s"
    and "\<not> exited (routine s)"
  shows "step conv w args (Select EndTimerC) s =
           Step (s\<lparr>routine := (routine s)\<lparr>timer := None, exited := True\<rparr>\<rparr>) None \<and>
         stop (payload s) = (CallResolve \<in> set evs) \<and>
         run conv w args (evs @ [Select EndTimerC, CallResolve]) s0 =
           Some (s\<lparr>routine := (routine s)\<lparr>timer := None, exited := True\<rparr>,
                   payload := (payload s)\<lparr>stop := True\<rparr>\<rparr>) \<and>
         step conv w args CallResolve (s\<lparr>routine := (routine s)\<lparr>timer := None, exited := True\<rparr>\<rparr>) =
           Step (s\<lparr>routine := (routine s)\<lparr>timer := None, exited := True\<rparr>,
                   payload := (payload s)\<lparr>stop := True\<rparr>\<rparr>)
             (Some (Data (conv (case full (payload s) of None \<Rightarrow> empty (payload s) | Some b \<Rightarrow> b))))"
proof -
  let ?s' = "s\<lparr>routine := (routine s)\<lparr>timer := None, exited := True\<rparr>\<rparr>"
  from buildPayload_fresh [OF assms(1)] have
    f: "\<not> stop (payload s0)" "armed (routine s0)"
    by simp_all
  from run_armed [OF assms(2) f(2)] have a: "armed (routine s)" .
  with assms(3) have 1: "step conv w args (Select EndTimerC) s = Step ?s' None"
    by (simp add: armed_def)
  from run_stop [OF assms(2)] f(1) have 2: "stop (payload s) = (CallResolve \<in> set evs)"
    by simp
  have 4: "step conv w args CallResolve ?s' =
      Step (?s'\<lparr>payload := (payload s)\<lparr>stop := True\<rparr>\<rparr>)
        (Some (Data (conv (case full (payload s) of None \<Rightarrow> empty (payload s) | Some b \<Rightarrow> b))))"
    by (simp only: step_CallResolve) (simp split: option.splits)
  have "run conv w args [Select EndTimerC, CallResolve] s =
      Some (?s'\<lparr>payload := (payload s)\<lparr>stop := True\<rparr>\<rparr>)"
    by (simp only: run.simps 1 4 step_result.case)
  with assms(2) have 3: "run conv w args (evs @ [Select EndTimerC, CallResolve]) s0 =
      Some (?s'\<lparr>payload := (payload s)\<lparr>stop := True\<rparr>\<rparr>)"
    by (simp only: run_append option.case)
  from 1 2 3 4 show ?thesis by simp
qed

theorem deadline_exit_keeps_stop_witness:
  "buildPayload w0 args0 = Inr sys0 \<and>
   run conv0 w0 args0 [Select TimerC] sys0 = Some sys_built \<and>
   \<not> exited (routine sys_built) \<and>
   step conv0 w0 args0 (Select EndTimerC) sys_built =
     Step (sys_built\<lparr>routine := (routine sys_built)\<lparr>timer := None, exited := True\<rparr>\<rparr>) None \<and>
   stop (payload sys_built) = (CallResolve \<in> set [Select TimerC]) \<and>
   \<not> stop (payload sys_built) \<and>
   step conv0 w0 args0 CallResolve
       (sys_built\<lparr>routine := (routine sys_built)\<lparr>timer := None, exited := True\<rparr>\<rparr>) =
     Step (sys_built\<lparr>routine := (routine sys_built)\<lparr>timer := None, exited := True\<rparr>,
                     payload := (payload sys_built)\<lparr>stop := True\<rparr>\<rparr>)
       (Some (Data 101))"
proof -
  have n: "\<not> exited (routine sys_built)" by (simp add: example_defs)
  have f: "conv0 (case full (payload sys_built) of None \<Rightarrow> empty (payload sys_built) | Some b \<Rightarrow> b) = 101"
    by (simp add: example_defs)
  have s: "\<not> stop (payload sys_built)" by (simp add: example_defs)
  from deadline_exit_keeps_stop [OF build_sys0 run_built n]
  have c: "step conv0 w0 args0 (Select EndTimerC) sys_built =
       Step (sys_built\<lparr>routine := (routine sys_built)\<lparr>timer := None, exited := True\<rparr>\<rparr>) None"
    "stop (payload sys_built) = (CallResolve \<in> set [Select TimerC])"
    "step conv0 w0 args0 CallResolve
       (sys_built\<lparr>routine := (routine sys_built)\<lparr>timer := None, exited := True\<rparr>\<rparr>) =
     Step (sys_built\<lparr>routine := (routine sys_built)\<lparr>timer := None, exited := True\<rparr>,
                     payload := (payload sys_built)\<lparr>stop := True\<rparr>\<rparr>)
       (Some (Data (conv0 (case full (payload sys_built) of None \<Rightarrow> empty (payload sys_built) | Some b \<Rightarrow> b))))"
    by blast+
  from c(3) f have c3: "step conv0 w0 args0 CallResolve
       (sys_built\<lparr>routine := (routine sys_built)\<lparr>timer := None, exited := True\<rparr>\<rparr>) =
     Step (sys_built\<lparr>routine := (routine sys_built)\<lparr>timer := None, exited := True\<rparr>,
                     payload := (payload sys_built)\<lparr>stop := True\<rparr>\<rparr>)
       (Some (Data 101))"
    by (simp only:)
  from build_sys0 run_built n c(1,2) s c3 show ?thesis by blast
qed

text \<open>
  C10. In a running system no step panics; in particular the conversion at the end of
  \<open>ResolveFull\<close> never meets a nil block: whenever a goroutine has been woken, \<open>full\<close> is
  set, and the goroutine returns its conversion. An \<open>update\<close> that gets as far as its
  broadcast leaves \<open>full\<close> set, to its own block or to the one that was there. The nil
  result comes only from a call of \<open>ResolveFull\<close> that finds \<open>full\<close>
  nil and \<open>stop\<close> closed, before any wait, and that call changes nothing.
\<close>

theorem woken_caller_finds_full:
  assumes "buildPayload w args = Inr s0" and "run conv w args evs s0 = Some s"
  shows "step conv w args ev s \<noteq> Panic x \<and>
         (t \<in> set (woken (cond (payload s))) \<longrightarrow>
            (\<exists>b. full (payload s) = Some b \<and>
               step conv w args (WaitReturns t) s =
                 Step (s\<lparr>payload := (payload s)\<lparr>cond := Resume t (cond (payload s))\<rparr>\<rparr>)
                   (Some (Data (conv b))))) \<and>
         (\<not> stop (payload s) \<longrightarrow>
            (\<exists>p'. update (payload s) block fees = Inr p' \<and>
               cond p' = Broadcast (cond (payload s)) \<and>
               (full p' = Some block \<or> full p' = full (payload s) \<and> full p' \<noteq> None))) \<and>
         (step conv w args ev s = Step s' (Some NoData) \<longrightarrow>
            (\<exists>u. ev = CallResolveFull u) \<and> stop (payload s) \<and> full (payload s) = None \<and> s' = s)"
proof -
  from assms have snd: "sound (payload s)" by (rule reachable_sound)
  then have hf: "has_fees (payload s)" by (rule sound_has_fees)
  have 1: "step conv w args ev s \<noteq> Panic x" using snd by (rule step_no_panic)
  have 2: "t \<in> set (woken (cond (payload s))) \<longrightarrow>
            (\<exists>b. full (payload s) = Some b \<and>
               step conv w args (WaitReturns t) s =
                 Step (s\<lparr>payload := (payload s)\<lparr>cond := Resume t (cond (payload s))\<rparr>\<rparr>)
                   (Some (Data (conv b))))"
  proof
    assume w: "t \<in> set (woken (cond (payload s)))"
    then have "woken (cond (payload s)) \<noteq> []" by auto
    with snd obtain b where "full (payload s) = Some b" by (auto simp: sound_def)
    with w show "\<exists>b. full (payload s) = Some b \<and>
               step conv w args (WaitReturns t) s =
                 Step (s\<lparr>payload := (payload s)\<lparr>cond := Resume t (cond (payload s))\<rparr>\<rparr>)
                   (Some (Data (conv b)))"
      by (simp add: ResolveFull_resume_def BlockToExecutableData_def)
  qed
  have 3: "\<not> stop (payload s) \<longrightarrow>
            (\<exists>p'. update (payload s) block fees = Inr p' \<and>
               cond p' = Broadcast (cond (payload s)) \<and>
               (full p' = Some block \<or> full p' = full (payload s) \<and> full p' \<noteq> None))"
    using hf by (auto simp: update_running has_fees_def)
  have 4: "step conv w args ev s = Step s' (Some NoData) \<longrightarrow>
            (\<exists>u. ev = CallResolveFull u) \<and> stop (payload s) \<and> full (payload s) = None \<and> s' = s"
    by (cases ev)
       (auto simp: Resolve_eq ResolveEmpty_def ResolveFull_def ResolveFull_resume_def
          BlockToExecutableData_def split: if_splits sum.splits option.splits)
  from 1 2 3 4 show ?thesis by blast
qed

theorem woken_caller_finds_full_witness:
  "buildPayload w0 args0 = Inr sys0 \<and>
   run conv0 w0 args0 [CallResolveFull 7, Select TimerC] sys0 = Some sys_woken \<and>
   7 \<in> set (woken (cond (payload sys_woken))) \<and>
   full (payload sys_woken) = Some 1 \<and>
   step conv0 w0 args0 (WaitReturns 7) sys_woken = Step sys_built (Some (Data 101)) \<and>
   run conv0 w0 args0 [CallResolveFull 7] sys0 = Some sys_parked \<and>
   \<not> stop (payload sys_parked) \<and>
   update (payload sys_parked) 1 10 = Inr (payload sys_woken) \<and>
   run conv0 w0 args0 [CallResolve] sys0 = Some (sys0\<lparr>payload := payload0\<lparr>stop := True\<rparr>\<rparr>) \<and>
   step conv0 w0 args0 (CallResolveFull 7) (sys0\<lparr>payload := payload0\<lparr>stop := True\<rparr>\<rparr>) =
     Step (sys0\<lparr>payload := payload0\<lparr>stop := True\<rparr>\<rparr>) (Some NoData) \<and>
   stop (payload (sys0\<lparr>payload := payload0\<lparr>stop := True\<rparr>\<rparr>)) \<and>
   full (payload (sys0\<lparr>payload := payload0\<lparr>stop := True\<rparr>\<rparr>)) = None"
proof -
  have h: "7 \<in> set (woken (cond (payload sys_woken)))" by (simp add: example_defs)
  from woken_caller_finds_full [OF build_sys0 run_woken, where t = 7] h
  obtain b where b: "full (payload sys_woken) = Some b"
    "step conv0 w0 args0 (WaitReturns 7) sys_woken =
       Step (sys_woken\<lparr>payload := (payload sys_woken)\<lparr>cond := Resume 7 (cond (payload sys_woken))\<rparr>\<rparr>)
         (Some (Data (conv0 b)))"
    by blast
  have f: "full (payload sys_woken) = Some 1" by (simp add: example_defs)
  with b(1) have "b = 1" by simp
  moreover have "sys_woken\<lparr>payload := (payload sys_woken)\<lparr>cond := Resume 7 (cond (payload sys_woken))\<rparr>\<rparr> =
      sys_built"
    by (simp add: example_defs Resume_def)
  ultimately have c1: "step conv0 w0 args0 (WaitReturns 7) sys_woken = Step sys_built (Some (Data 101))"
    using b(2) by (simp add: conv0_def del: step.simps)
  have d: "\<not> stop (payload sys_parked)" by (simp add: example_defs)
  from woken_caller_finds_full [OF build_sys0 run_parked, where block = 1 and fees = 10] d
  obtain p' where p': "update (payload sys_parked) 1 10 = Inr p'"
    "cond p' = Broadcast (cond (payload sys_parked))"
    by blast
  have "update (payload sys_parked) 1 10 = Inr (payload sys_woken)"
    by (simp add: example_defs model_defs)
  with p'(1) have u: "update (payload sys_parked) 1 10 = Inr (payload sys_woken)" by simp
  have n: "step conv0 w0 args0 (CallResolveFull 7) (sys0\<lparr>payload := payload0\<lparr>stop := True\<rparr>\<rparr>) =
     Step (sys0\<lparr>payload := payload0\<lparr>stop := True\<rparr>\<rparr>) (Some NoData)"
    by (simp add: example_defs model_defs)
  from woken_caller_finds_full [OF build_sys0 run_resolved, where ev = "CallResolveFull 7"] n
  have c3: "stop (payload (sys0\<lparr>payload := payload0\<lparr>stop := True\<rparr>\<rparr>))"
    "full (payload (sys0\<lparr>payload := payload0\<lparr>stop := True\<rparr>\<rparr>)) = None"
    by blast+
  from build_sys0 run_woken h f c1 run_parked u d run_resolved n c3 show ?thesis by blast
qed

end
